theory Spec2Isabelle
  imports Complex_Main "HOL-Library.Word"
begin

section \<open>Conventions of the embedding\<close>

text \<open>
  The Go package \<^verbatim>\<open>perceptualdiff\<close> (files \<^verbatim>\<open>metric.go\<close>, \<^verbatim>\<open>laplacian_pyramid.go\<close> and the
  file of metric math and colour functions) is embedded function by function.

  \<^item> Go's \<^verbatim>\<open>int\<close> is \<^typ>\<open>int\<close>: no claim depends on 64-bit wrap-around, the
    products \<^verbatim>\<open>w*h\<close> involved are sizes of buffers that are allocated.
  \<^item> \<^verbatim>\<open>uint32\<close> colour channels are \<^typ>\<open>32 word\<close>, the bytes of the
    difference bitmap are \<^typ>\<open>8 word\<close>; the counters \<^verbatim>\<open>ThresholdPixels\<close> (uint)
    and \<^verbatim>\<open>NumPixelsFailed\<close> (uint64) are \<^typ>\<open>nat\<close>: the counter is incremented
    at most once per pixel.
  \<^item> \<^verbatim>\<open>float64\<close> is idealised as \<^typ>\<open>real\<close>: \<^verbatim>\<open>math.Pow\<close>, \<^verbatim>\<open>math.Exp\<close>,
    \<^verbatim>\<open>math.Sqrt\<close>, \<^verbatim>\<open>math.Log10\<close>, \<^verbatim>\<open>math.Tan\<close> are the exact functions,
    \<^verbatim>\<open>math.Max\<close>, \<^verbatim>\<open>math.Min\<close> and \<^verbatim>\<open>math.Abs\<close> are \<open>max\<close>, \<open>min\<close> and the
    absolute value. Rounding, infinities, NaN and the division by zero (an infinity or
    NaN in Go, 0 in HOL) are outside this idealisation.
  \<^item> A run-time panic (index out of range, the explicit \<^verbatim>\<open>panic\<close> of
    \<^verbatim>\<open>convolve\<close>) is the \<open>Inl\<close> branch of a sum type.
  \<^item> The goroutines of \<^verbatim>\<open>YeeCompare\<close> (one per row, joined by a wait group
    before any result is read) are run one row after the other: they write to
    disjoint entries of the buffers and of the bitmap, the counter of failed pixels
    does not depend on their order, and neither does the sum of errors in exact
    arithmetic. The writes \<^verbatim>\<open>output_verbose.Write\<close> have no effect on the result
    and are left out.
\<close>

type_synonym float64 = real
type_synonym uint32 = "32 word"
type_synonym uint8 = "8 word"

text \<open>
  A panic is recorded with the function it is raised in (the top of the stack trace
  that Go prints): \<^verbatim>\<open>YeeCompare\<close> and its goroutines, \<^verbatim>\<open>convolve\<close>, or the accessor
  \<^verbatim>\<open>get_value\<close>.
\<close>

datatype site = In_YeeCompare | In_convolve | In_get_value

datatype error =
    IndexOutOfRange site
  | EmptySourceOrDestination

subsection \<open>Slices and loops\<close>

text \<open>\<^verbatim>\<open>xs[i]\<close> as a read: Go panics when \<open>i\<close> is negative or not below \<^verbatim>\<open>len(xs)\<close>.\<close>

definition index_at :: "site \<Rightarrow> 'a list \<Rightarrow> int \<Rightarrow> error + 'a" where
  "index_at st xs i =
     (if 0 \<le> i \<and> i < int (length xs) then Inr (xs ! nat i) else Inl (IndexOutOfRange st))"

text \<open>\<^verbatim>\<open>xs[i] = v\<close>: the same check, then the update.\<close>

definition store_at :: "site \<Rightarrow> 'a list \<Rightarrow> int \<Rightarrow> 'a \<Rightarrow> error + 'a list" where
  "store_at st xs i v =
     (if 0 \<le> i \<and> i < int (length xs) then Inr (xs[nat i := v])
      else Inl (IndexOutOfRange st))"

text \<open>Sequencing of computations that may panic.\<close>

definition and_then :: "error + 'a \<Rightarrow> ('a \<Rightarrow> error + 'b) \<Rightarrow> error + 'b" where
  "and_then m f = (case m of Inl e \<Rightarrow> Inl e | Inr v \<Rightarrow> f v)"

text \<open>The values \<open>lo, lo + 1, \<dots>, hi - 1\<close> of \<^verbatim>\<open>for i := lo; i < hi; i++\<close>.\<close>

definition counting :: "int \<Rightarrow> int \<Rightarrow> int list" where
  "counting lo hi = map (\<lambda>k. lo + int k) [0..<nat (hi - lo)]"

text \<open>A \<^verbatim>\<open>for\<close> loop over the given values whose body updates a state and may panic.\<close>

fun for_each :: "'a list \<Rightarrow> ('a \<Rightarrow> 's \<Rightarrow> error + 's) \<Rightarrow> 's \<Rightarrow> error + 's" where
  "for_each [] body s = Inr s"
| "for_each (x # xs) body s =
     (case body x s of Inl e \<Rightarrow> Inl e | Inr s' \<Rightarrow> for_each xs body s')"

section \<open>Metric math and colour functions\<close>

text \<open>
  \<^verbatim>\<open>math.Pow(x, y)\<close>: 1 for \<open>y = 0\<close> (also at \<open>x = 0\<close>), otherwise the real power. For
  \<open>x < 0\<close> with a fractional \<open>y\<close> (NaN in Go) and for \<open>x = 0\<close> with \<open>y < 0\<close> (infinite
  in Go) the value is outside the idealisation.
\<close>

definition Pow :: "float64 \<Rightarrow> float64 \<Rightarrow> float64" where
  "Pow x y = (if y = 0 then 1 else x powr y)"

definition Log10 :: "float64 \<Rightarrow> float64" where
  "Log10 x = log 10 x"

definition to_radians :: "float64 \<Rightarrow> float64" where
  "to_radians degrees = degrees * pi / 180"

definition to_degrees :: "float64 \<Rightarrow> float64" where
  "to_degrees radians = radians * 180 / pi"

definition tvi :: "float64 \<Rightarrow> float64" where
  "tvi adaptation_luminance =
     (let log_a = Log10 adaptation_luminance;
          r = (if log_a < - 3.94 then - 2.86
               else if log_a < - 1.44 then Pow (0.405 * log_a + 1.6) 2.18 - 2.86
               else if log_a < - 0.0184 then log_a - 0.395
               else if log_a < 1.9 then Pow (0.249 * log_a + 0.65) 2.7 - 0.72
               else log_a - 1.255)
      in Pow 10 r)"

definition csf :: "float64 \<Rightarrow> float64 \<Rightarrow> float64" where
  "csf cpd lum =
     (let a = 440 * Pow (1 + 0.7 / lum) (- 0.2);
          b = 0.3 * Pow (1 + 100 / lum) 0.15
      in a * cpd * exp (- b * cpd) * sqrt (1 + 0.06 * exp (b * cpd)))"

definition mask :: "float64 \<Rightarrow> float64" where
  "mask contrast =
     (let a = Pow (392.498 * contrast) 0.7;
          b = Pow (0.0153 * a) 4
      in Pow (1 + b) 0.25)"

definition adobe_rgb_to_xyz :: "float64 \<Rightarrow> float64 \<Rightarrow> float64 \<Rightarrow> float64 \<times> float64 \<times> float64" where
  "adobe_rgb_to_xyz r g b =
     (r * 0.576700 + g * 0.185556 + b * 0.188212,
      r * 0.297361 + g * 0.627355 + b * 0.0752847,
      r * 0.0270328 + g * 0.0706879 + b * 0.991248)"

text \<open>The package variable \<^verbatim>\<open>white\<close>, set once by \<^verbatim>\<open>init\<close>.\<close>

definition white :: "float64 \<times> float64 \<times> float64" where
  "white = adobe_rgb_to_xyz 1 1 1"

text \<open>
  The body of the loop of \<^verbatim>\<open>xyz_to_lab\<close> over the three ratios, with
  \<^verbatim>\<open>epsilon = 216.0 / 24389.0\<close> and \<^verbatim>\<open>kappa = 24389.0 / 27.0\<close>.
\<close>

definition lab_f :: "float64 \<Rightarrow> float64" where
  "lab_f r = (if r > 216 / 24389 then Pow r (1 / 3) else ((24389 / 27) * r + 16) / 116)"

definition xyz_to_lab :: "float64 \<Rightarrow> float64 \<Rightarrow> float64 \<Rightarrow> float64 \<times> float64 \<times> float64" where
  "xyz_to_lab x y z =
     (case white of (white_x, white_y, white_z) \<Rightarrow>
        (let f0 = lab_f (x / white_x);
             f1 = lab_f (y / white_y);
             f2 = lab_f (z / white_z)
         in (116 * f1 - 16, 500 * (f0 - f1), 200 * (f1 - f2))))"

definition MAX_PYR_LEVELS :: int where
  "MAX_PYR_LEVELS = 8"

text \<open>
  The loop of \<^verbatim>\<open>adaptation\<close>, from the test \<^verbatim>\<open>i < MAX_PYR_LEVELS\<close> on; the
  \<^verbatim>\<open>break\<close> returns the level just assigned, the exhausted loop the last one
  assigned.
\<close>

function adaptation_loop :: "int \<Rightarrow> float64 \<Rightarrow> int \<Rightarrow> float64 \<Rightarrow> int" where
  "adaptation_loop i num_pixels adaptation_level num_one_degree_pixels =
     (if i < MAX_PYR_LEVELS then
        (if num_pixels > num_one_degree_pixels then i
         else adaptation_loop (i + 1) (num_pixels * 2) i num_one_degree_pixels)
      else adaptation_level)"
  by pat_completeness auto
termination
  by (relation "measure (\<lambda>(i, _, _, _). nat (MAX_PYR_LEVELS - i))") auto

declare adaptation_loop.simps [simp del]

definition adaptation :: "float64 \<Rightarrow> int" where
  "adaptation num_one_degree_pixels = adaptation_loop 0 1 0 num_one_degree_pixels"

section \<open>Laplacian pyramid\<close>

record pyramid =
  width :: int
  height :: int
  levels :: "float64 list list"

definition abs_int :: "int \<Rightarrow> int" where
  "abs_int x = (if x \<ge> 0 then x else - x)"

definition kernel :: "float64 list" where
  "kernel = [0.05, 0.25, 0.4, 0.25, 0.05]"

text \<open>
  The body of the two innermost loops of \<^verbatim>\<open>convolve\<close>: the reflected coordinates and
  \<^verbatim>\<open>result += kernel[i+2] * kernel[j+2] * b[ny*l.width+nx]\<close>.
\<close>

definition convolve_tap ::
  "pyramid \<Rightarrow> float64 list \<Rightarrow> int \<Rightarrow> int \<Rightarrow> int \<Rightarrow> int \<Rightarrow> float64 \<Rightarrow> error + float64" where
  "convolve_tap l b x y i j result =
     (let nx = abs_int (x + i);
          ny = abs_int (y + j);
          nx = (if nx \<ge> width l then 2 * width l - nx - 1 else nx);
          ny = (if ny \<ge> height l then 2 * height l - ny - 1 else ny)
      in and_then (index_at In_convolve kernel (i + 2)) (\<lambda>ki.
         and_then (index_at In_convolve kernel (j + 2)) (\<lambda>kj.
         and_then (index_at In_convolve b (ny * width l + nx)) (\<lambda>v.
         Inr (result + ki * kj * v)))))"

text \<open>\<^verbatim>\<open>var result float64\<close> and the loops over \<open>i\<close> and \<open>j\<close> from -2 to 2.\<close>

definition convolve_pixel :: "pyramid \<Rightarrow> float64 list \<Rightarrow> int \<Rightarrow> int \<Rightarrow> error + float64" where
  "convolve_pixel l b x y =
     for_each (counting (- 2) 3) (\<lambda>i.
       for_each (counting (- 2) 3) (\<lambda>j. convolve_tap l b x y i j)) 0"

text \<open>The body of the loop over \<open>x\<close>, ending in \<^verbatim>\<open>a[index] = result\<close>.\<close>

definition convolve_at ::
  "pyramid \<Rightarrow> float64 list \<Rightarrow> int \<Rightarrow> int \<Rightarrow> float64 list \<Rightarrow> error + float64 list" where
  "convolve_at l b y x a =
     (let index = y * width l + x
      in and_then (convolve_pixel l b x y) (\<lambda>result. store_at In_convolve a index result))"

text \<open>\<^verbatim>\<open>convolve(a, b)\<close> writes into \<open>a\<close>; the model returns the written slice.\<close>

definition convolve :: "pyramid \<Rightarrow> float64 list \<Rightarrow> float64 list \<Rightarrow> error + float64 list" where
  "convolve l a b =
     (if length a = 0 \<or> length b = 0 then Inl EmptySourceOrDestination
      else for_each (counting 0 (height l)) (\<lambda>y.
             for_each (counting 0 (width l)) (\<lambda>x. convolve_at l b y x)) a)"

text \<open>
  The body of the loop of \<^verbatim>\<open>newPyramid\<close>. The array \<^verbatim>\<open>levels\<close> has
  \<^verbatim>\<open>MAX_PYR_LEVELS\<close> entries and \<open>i\<close> runs below that, so \<^verbatim>\<open>l.levels[i] = \<dots>\<close>
  is a plain update; \<^verbatim>\<open>make\<close> is reached with \<open>w * h > 1\<close> only.
\<close>

definition newPyramid_level :: "float64 list \<Rightarrow> int \<Rightarrow> int \<Rightarrow> int \<Rightarrow> pyramid \<Rightarrow> error + pyramid" where
  "newPyramid_level img w h i l =
     (if i = 0 \<or> w * h \<le> 1 then Inr (l\<lparr>levels := (levels l)[nat i := img]\<rparr>)
      else and_then
             (convolve l (replicate (nat (width l * height l)) 0) (levels l ! nat (i - 1)))
             (\<lambda>a. Inr (l\<lparr>levels := (levels l)[nat i := a]\<rparr>)))"

definition newPyramid :: "float64 list \<Rightarrow> int \<Rightarrow> int \<Rightarrow> error + pyramid" where
  "newPyramid img w h =
     for_each (counting 0 MAX_PYR_LEVELS) (newPyramid_level img w h)
       \<lparr>width = w, height = h, levels = replicate (nat MAX_PYR_LEVELS) []\<rparr>"

text \<open>
  \<^verbatim>\<open>l.levels[level][index]\<close>: the array is indexed first, then the slice, each with
  Go's bounds check.
\<close>

definition get_value :: "pyramid \<Rightarrow> int \<Rightarrow> int \<Rightarrow> int \<Rightarrow> error + float64" where
  "get_value l x y level =
     (let index = x + y * width l
      in and_then (index_at In_get_value (levels l) level) (\<lambda>lv. index_at In_get_value lv index))"

section \<open>Images\<close>

text \<open>
  What \<^verbatim>\<open>YeeCompare\<close> uses of the standard library's \<^verbatim>\<open>image\<close> package. An
  \<^verbatim>\<open>image.Image\<close> is its \<^verbatim>\<open>Bounds()\<close> and its \<^verbatim>\<open>At(x, y).RGBA()\<close>, the four
  channels as \<^verbatim>\<open>uint32\<close>, at every coordinate (the library's image types answer
  the zero colour outside their bounds).
\<close>

record point =
  X :: int
  Y :: int

text \<open>\<^verbatim>\<open>image.Rectangle\<close>; its fields \<^verbatim>\<open>Min\<close> and \<^verbatim>\<open>Max\<close> are \<open>Min_pt\<close> and \<open>Max_pt\<close> here.\<close>

record rectangle =
  Min_pt :: point
  Max_pt :: point

definition Size :: "rectangle \<Rightarrow> point" where
  "Size r = \<lparr>X = X (Max_pt r) - X (Min_pt r), Y = Y (Max_pt r) - Y (Min_pt r)\<rparr>"

type_synonym rgba = "uint32 \<times> uint32 \<times> uint32 \<times> uint32"

record Image =
  Bounds :: rectangle
  At :: "int \<Rightarrow> int \<Rightarrow> rgba"

text \<open>
  \<^verbatim>\<open>*image.RGBA\<close>, the type of the difference bitmap, one entry of \<open>Pix\<close> per pixel
  in row-major order. \<^verbatim>\<open>SetRGBA\<close> ignores a point outside \<open>Rect\<close>.
\<close>

type_synonym color_RGBA = "uint8 \<times> uint8 \<times> uint8 \<times> uint8"

record RGBA =
  Pix :: "color_RGBA list"
  Rect :: rectangle

definition NewRGBA :: "rectangle \<Rightarrow> RGBA" where
  "NewRGBA r = \<lparr>Pix = replicate (nat (X (Size r) * Y (Size r))) (0, 0, 0, 0), Rect = r\<rparr>"

definition point_in :: "int \<Rightarrow> int \<Rightarrow> rectangle \<Rightarrow> bool" where
  "point_in x y r =
     (X (Min_pt r) \<le> x \<and> x < X (Max_pt r) \<and> Y (Min_pt r) \<le> y \<and> y < Y (Max_pt r))"

definition SetRGBA :: "RGBA \<Rightarrow> int \<Rightarrow> int \<Rightarrow> color_RGBA \<Rightarrow> RGBA" where
  "SetRGBA p x y c =
     (if point_in x y (Rect p)
      then p\<lparr>Pix := (Pix p)[nat ((y - Y (Min_pt (Rect p))) * X (Size (Rect p))
                                 + (x - X (Min_pt (Rect p)))) := c]\<rparr>
      else p)"

section \<open>The metric\<close>

definition ReasonDimensionMismatch :: string where
  "ReasonDimensionMismatch = ''Image dimensions do not match''"

definition ReasonBinaryIdentical :: string where
  "ReasonBinaryIdentical = ''Images are binary identical''"

definition ReasonIndistinguishable :: string where
  "ReasonIndistinguishable = ''Images are perceptually indistinguishable''"

definition ReasonVisiblyDifferent :: string where
  "ReasonVisiblyDifferent = ''Images are visibly different''"

record Parameters =
  LuminanceOnly :: bool
  FieldOfView :: float64
  Gamma :: float64
  Luminance :: float64
  ThresholdPixels :: nat
  ColorFactor :: float64

text \<open>\<open>ImageDifference\<close> is a pointer: \<open>None\<close> is \<^verbatim>\<open>nil\<close>.\<close>

record CompareResult =
  Reason :: string
  NumPixelsFailed :: nat
  ErrorSum :: float64
  ImageDifference :: "RGBA option"

definition DefaultParameters :: Parameters where
  "DefaultParameters =
     \<lparr>LuminanceOnly = False, FieldOfView = 45.0, Gamma = 2.2, Luminance = 100.0,
      ThresholdPixels = 100, ColorFactor = 1.0\<rparr>"

subsection \<open>The scan for binary identity\<close>

text \<open>
  The inner loop over \<open>x\<close>, from its test on. On a differing pixel the body sets
  \<^verbatim>\<open>identical = false\<close>, \<^verbatim>\<open>x = bounds.Max.X\<close> and \<^verbatim>\<open>y = bounds.Max.Y\<close>; the
  loop's \<^verbatim>\<open>x++\<close> follows. The loop hands back \<open>y\<close> and \<open>identical\<close>.
\<close>

function scan_row :: "Image \<Rightarrow> Image \<Rightarrow> rectangle \<Rightarrow> int \<Rightarrow> int \<Rightarrow> bool \<Rightarrow> int \<times> bool" where
  "scan_row image_a image_b bounds x y identical =
     (if x < X (Max_pt bounds) then
        (if At image_a x y \<noteq> At image_b x y
         then scan_row image_a image_b bounds (X (Max_pt bounds) + 1) (Y (Max_pt bounds)) False
         else scan_row image_a image_b bounds (x + 1) y identical)
      else (y, identical))"
  by pat_completeness auto
termination
  by (relation "measure (\<lambda>(_, _, bounds, x, _, _). nat (X (Max_pt bounds) + 1 - x))") auto

declare scan_row.simps [simp del]

lemma scan_row_y:
  "fst (scan_row image_a image_b bounds x y identical) = y
   \<or> fst (scan_row image_a image_b bounds x y identical) = Y (Max_pt bounds)"
proof (induction image_a image_b bounds x y identical rule: scan_row.induct)
  case (1 image_a image_b bounds x y identical)
  then show ?case
    by (subst (1 2) scan_row.simps) auto
qed

text \<open>The outer loop over \<open>y\<close>, from its test on, with its \<^verbatim>\<open>y++\<close>.\<close>

function scan_rows :: "Image \<Rightarrow> Image \<Rightarrow> rectangle \<Rightarrow> int \<Rightarrow> bool \<Rightarrow> bool" where
  "scan_rows image_a image_b bounds y identical =
     (if y < Y (Max_pt bounds) then
        (case scan_row image_a image_b bounds (X (Min_pt bounds)) y identical of
           (y', identical') \<Rightarrow> scan_rows image_a image_b bounds (y' + 1) identical')
      else identical)"
  by pat_completeness auto
termination
proof (relation "measure (\<lambda>(_, _, bounds, y, _). nat (Y (Max_pt bounds) + 1 - y))", goal_cases)
  case 1
  show ?case by simp
next
  case (2 image_a image_b bounds y identical y' identical')
  have "y' = y \<or> y' = Y (Max_pt bounds)"
    using scan_row_y [of image_a image_b bounds "X (Min_pt bounds)" y identical] 2(2)
    by (metis fst_conv)
  with 2(1) show ?case by auto
qed

declare scan_rows.simps [simp del]

subsection \<open>Conversion to luminance and chrominance\<close>

record buffers =
  a_lum :: "float64 list"
  b_lum :: "float64 list"
  a_a :: "float64 list"
  b_a :: "float64 list"
  a_b :: "float64 list"
  b_b :: "float64 list"

text \<open>
  \<^verbatim>\<open>adobe_rgb_to_xyz(math.Pow(float64(R)/maxValue, gamma), \<dots>)\<close> of one colour, with
  \<^verbatim>\<open>maxValue = float64(0xffff)\<close>.
\<close>

definition pixel_xyz :: "rgba \<Rightarrow> float64 \<Rightarrow> float64 \<times> float64 \<times> float64" where
  "pixel_xyz c gamma =
     (case c of (color_R, color_G, color_B, _) \<Rightarrow>
        adobe_rgb_to_xyz (Pow (real (unat color_R) / 65535) gamma)
                         (Pow (real (unat color_G) / 65535) gamma)
                         (Pow (real (unat color_B) / 65535) gamma))"

text \<open>The body of the loop over \<open>x\<close> in the first goroutine.\<close>

definition convert_pixel ::
  "Image \<Rightarrow> Image \<Rightarrow> int \<Rightarrow> float64 \<Rightarrow> float64 \<Rightarrow> int \<Rightarrow> int \<Rightarrow> buffers \<Rightarrow> error + buffers" where
  "convert_pixel image_a image_b w gamma luminance y x s =
     (let i = x + y * w in
      case pixel_xyz (At image_a x y) gamma of (a_x, a_y, a_z) \<Rightarrow>
      case xyz_to_lab a_x a_y a_z of (_, a_lab_a, a_lab_b) \<Rightarrow>
      and_then (store_at In_YeeCompare (a_a s) i a_lab_a) (\<lambda>a_a'.
      and_then (store_at In_YeeCompare (a_b s) i a_lab_b) (\<lambda>a_b'.
      case pixel_xyz (At image_b x y) gamma of (b_x, b_y, b_z) \<Rightarrow>
      case xyz_to_lab b_x b_y b_z of (_, b_lab_a, b_lab_b) \<Rightarrow>
      and_then (store_at In_YeeCompare (b_a s) i b_lab_a) (\<lambda>b_a'.
      and_then (store_at In_YeeCompare (b_b s) i b_lab_b) (\<lambda>b_b'.
      and_then (store_at In_YeeCompare (a_lum s) i (a_y * luminance)) (\<lambda>a_lum'.
      and_then (store_at In_YeeCompare (b_lum s) i (b_y * luminance)) (\<lambda>b_lum'.
      Inr \<lparr>a_lum = a_lum', b_lum = b_lum', a_a = a_a', b_a = b_a',
           a_b = a_b', b_b = b_b'\<rparr>)))))))"

text \<open>
  The six \<^verbatim>\<open>make([]float64, dim)\<close> and the loops over the rows and columns of
  \<open>bounds\<close>. The scan has found a differing pixel before, so \<^verbatim>\<open>dim\<close> (here
  \<open>dim_px\<close>) is positive and \<^verbatim>\<open>make\<close> does not panic (\<open>scan_rows_found\<close> below).
\<close>

definition convert ::
  "Image \<Rightarrow> Image \<Rightarrow> rectangle \<Rightarrow> int \<Rightarrow> int \<Rightarrow> float64 \<Rightarrow> float64 \<Rightarrow> error + buffers" where
  "convert image_a image_b bounds w dim_px gamma luminance =
     for_each (counting (Y (Min_pt bounds)) (Y (Max_pt bounds))) (\<lambda>y.
       for_each (counting (X (Min_pt bounds)) (X (Max_pt bounds)))
         (convert_pixel image_a image_b w gamma luminance y))
       \<lparr>a_lum = replicate (nat dim_px) 0, b_lum = replicate (nat dim_px) 0,
        a_a = replicate (nat dim_px) 0, b_a = replicate (nat dim_px) 0,
        a_b = replicate (nat dim_px) 0, b_b = replicate (nat dim_px) 0\<rparr>"

subsection \<open>The test of each pixel\<close>

text \<open>\<^verbatim>\<open>cpd[0] = 0.5 * pixels_per_degree\<close>, then \<^verbatim>\<open>cpd[i] = 0.5 * cpd[i-1]\<close> for \<open>i\<close> from 1 to 7.\<close>

definition cpd_table :: "float64 \<Rightarrow> float64 list" where
  "cpd_table pixels_per_degree =
     foldl (\<lambda>cpd i. cpd[i := 0.5 * cpd ! (i - 1)])
       ((replicate (nat MAX_PYR_LEVELS) 0)[0 := 0.5 * pixels_per_degree])
       [1..<nat MAX_PYR_LEVELS]"

text \<open>\<^verbatim>\<open>f_freq[i] = csf_max / csf(cpd[i], 100.0)\<close> for \<open>i\<close> below \<^verbatim>\<open>MAX_PYR_LEVELS-2\<close>.\<close>

definition f_freq_table :: "float64 list \<Rightarrow> float64 list" where
  "f_freq_table cpd =
     (let csf_max = csf 3.248 100.0
      in map (\<lambda>i. csf_max / csf (cpd ! i) 100.0) [0..<nat (MAX_PYR_LEVELS - 2)])"

text \<open>
  The body of the loop over the levels \<open>i\<close>; the state is \<open>(sum_contrast, factor)\<close>. The
  arrays \<open>cpd\<close> and \<open>f_freq\<close> have 8 and 6 entries and \<open>i\<close> runs from 0 to 5.
\<close>

definition fuse_level ::
  "pyramid \<Rightarrow> pyramid \<Rightarrow> float64 list \<Rightarrow> float64 list \<Rightarrow> float64 \<Rightarrow> int \<Rightarrow> int \<Rightarrow> int
     \<Rightarrow> float64 \<times> float64 \<Rightarrow> error + float64 \<times> float64" where
  "fuse_level la lb cpd f_freq adapt x y i st =
     (case st of (sum_contrast, factor) \<Rightarrow>
      and_then (get_value la x y i) (\<lambda>la0.
      and_then (get_value la x y (i + 1)) (\<lambda>la1.
      and_then (get_value lb x y i) (\<lambda>lb0.
      and_then (get_value lb x y (i + 1)) (\<lambda>lb1.
      and_then (get_value la x y (i + 2)) (\<lambda>la2.
      and_then (get_value lb x y (i + 2)) (\<lambda>lb2.
      (let n1 = \<bar>la0 - la1\<bar>;
           n2 = \<bar>lb0 - lb1\<bar>;
           numerator = max n1 n2;
           d1 = \<bar>la2\<bar>;
           d2 = \<bar>lb2\<bar>;
           denominator = max (max d1 d2) 0.00001;
           contrast = numerator / denominator;
           f_mask = mask (contrast * csf (cpd ! nat i) adapt)
       in Inr (sum_contrast + contrast, factor + contrast * (f_freq ! nat i) * f_mask)))))))))"

text \<open>
  The loop over the levels, then \<^verbatim>\<open>sum_contrast = math.Max(sum_contrast, 1e-5)\<close>,
  \<^verbatim>\<open>factor /= sum_contrast\<close> and the clamp of \<open>factor\<close> to \<open>[1, 10]\<close>.
\<close>

definition fuse_factor ::
  "pyramid \<Rightarrow> pyramid \<Rightarrow> float64 list \<Rightarrow> float64 list \<Rightarrow> float64 \<Rightarrow> int \<Rightarrow> int
     \<Rightarrow> error + float64" where
  "fuse_factor la lb cpd f_freq adapt x y =
     and_then (for_each (counting 0 (MAX_PYR_LEVELS - 2))
                 (fuse_level la lb cpd f_freq adapt x y) (0, 0))
       (\<lambda>(sum_contrast, factor).
          (let sum_contrast = max sum_contrast 0.00001;
               factor = factor / sum_contrast
           in Inr (min (max factor 1.0) 10.0)))"

text \<open>The CIE delta E test: \<^verbatim>\<open>delta_e\<close> of the pixel at \<open>index\<close>.\<close>

definition fuse_delta_e :: "Parameters \<Rightarrow> buffers \<Rightarrow> float64 \<Rightarrow> int \<Rightarrow> error + float64" where
  "fuse_delta_e args bufs adapt index =
     (let color_scale = ColorFactor args;
          color_scale = (if adapt < 10.0 then 0.0 else color_scale) in
      and_then (index_at In_YeeCompare (a_a bufs) index) (\<lambda>a_a_i.
      and_then (index_at In_YeeCompare (b_a bufs) index) (\<lambda>b_a_i.
      and_then (index_at In_YeeCompare (a_b bufs) index) (\<lambda>a_b_i.
      and_then (index_at In_YeeCompare (b_b bufs) index) (\<lambda>b_b_i.
      (let da = a_a_i - b_a_i;
           db = a_b_i - b_b_i
       in Inr ((da * da + db * db) * color_scale)))))))"

record fuse_state =
  pixels_failed :: nat
  error_sum :: float64
  diffImg :: RGBA

text \<open>
  The end of the body: the pixel of the difference bitmap is set to opaque black on
  a pass, to opaque blue on a failure, which is counted.
\<close>

definition fuse_mark :: "int \<Rightarrow> int \<Rightarrow> bool \<Rightarrow> fuse_state \<Rightarrow> fuse_state" where
  "fuse_mark x y pass s =
     (if pass
      then s\<lparr>diffImg := SetRGBA (diffImg s) x y (0, 0, 0, 255)\<rparr>
      else s\<lparr>pixels_failed := pixels_failed s + 1,
             diffImg := SetRGBA (diffImg s) x y (0, 0, 255, 255)\<rparr>)"

text \<open>
  The body of the loop over \<open>x\<close> in the second goroutine. The two atomic
  accumulators \<^verbatim>\<open>pixels_failed\<close> and \<^verbatim>\<open>error_sum\<close> are fields of the state.
\<close>

definition fuse_pixel ::
  "Parameters \<Rightarrow> pyramid \<Rightarrow> pyramid \<Rightarrow> buffers \<Rightarrow> float64 list \<Rightarrow> float64 list \<Rightarrow> int \<Rightarrow> int
     \<Rightarrow> int \<Rightarrow> int \<Rightarrow> fuse_state \<Rightarrow> error + fuse_state" where
  "fuse_pixel args la lb bufs cpd f_freq adaptation_level w y x s =
     (let index = y * w + x in
      and_then (get_value la x y adaptation_level) (\<lambda>la_adapt.
      and_then (get_value lb x y adaptation_level) (\<lambda>lb_adapt.
      (let adapt = max ((la_adapt + lb_adapt) * 0.5) 0.00001 in
       and_then (fuse_factor la lb cpd f_freq adapt x y) (\<lambda>factor.
       and_then (get_value la x y 0) (\<lambda>la0.
       and_then (get_value lb x y 0) (\<lambda>lb0.
       (let delta = \<bar>la0 - lb0\<bar>;
            s1 = s\<lparr>error_sum := error_sum s + delta\<rparr>;
            pass1 = (if delta > factor * tvi adapt then False else True) in
        if \<not> LuminanceOnly args
        then and_then (fuse_delta_e args bufs adapt index) (\<lambda>delta_e.
               (let s2 = s1\<lparr>error_sum := error_sum s1 + delta_e\<rparr>;
                    pass2 = (if delta_e > factor then False else pass1)
                in Inr (fuse_mark x y pass2 s2)))
        else Inr (fuse_mark x y pass1 s1)))))))))"

subsection \<open>YeeCompare\<close>

text \<open>
  \<^verbatim>\<open>YeeCompare\<close> after the scan has found a differing pixel: conversion, the
  constants of the test, the two pyramids, the loops over the rows and columns from
  0 to \<open>h\<close> and \<open>w\<close>, and the verdict.
\<close>

definition compare_pixels ::
  "Image \<Rightarrow> Image \<Rightarrow> Parameters \<Rightarrow> rectangle \<Rightarrow> int \<Rightarrow> int \<Rightarrow> error + bool \<times> CompareResult" where
  "compare_pixels image_a image_b args bounds w h =
     (let dim_px = w * h in
      and_then (convert image_a image_b bounds w dim_px (Gamma args) (Luminance args)) (\<lambda>bufs.
      (let num_one_degree_pixels = to_degrees (2 * tan (FieldOfView args * to_radians 0.5));
           pixels_per_degree = real_of_int w / num_one_degree_pixels;
           adaptation_level = adaptation num_one_degree_pixels;
           cpd = cpd_table pixels_per_degree;
           f_freq = f_freq_table cpd in
       and_then (newPyramid (a_lum bufs) w h) (\<lambda>la.
       and_then (newPyramid (b_lum bufs) w h) (\<lambda>lb.
       and_then
         (for_each (counting 0 h) (\<lambda>y.
            for_each (counting 0 w)
              (fuse_pixel args la lb bufs cpd f_freq adaptation_level w y))
            \<lparr>pixels_failed = 0, error_sum = 0, diffImg = NewRGBA (Bounds image_a)\<rparr>) (\<lambda>s.
       (let perceptuallyIdentical = (pixels_failed s < ThresholdPixels args);
            reason = (if perceptuallyIdentical then ReasonIndistinguishable
                      else ReasonVisiblyDifferent)
        in Inr (perceptuallyIdentical,
                \<lparr>Reason = reason, NumPixelsFailed = pixels_failed s,
                 ErrorSum = error_sum s, ImageDifference = Some (diffImg s)\<rparr>))))))))"

text \<open>
  A composite literal \<^verbatim>\<open>CompareResult{Reason: r}\<close> leaves the other fields at their
  zero values: 0, 0 and \<^verbatim>\<open>nil\<close>.
\<close>

definition YeeCompare :: "Image \<Rightarrow> Image \<Rightarrow> Parameters \<Rightarrow> error + bool \<times> CompareResult" where
  "YeeCompare image_a image_b args =
     (let a_size = Size (Bounds image_a);
          b_size = Size (Bounds image_b) in
      if a_size \<noteq> b_size
      then Inr (False, \<lparr>Reason = ReasonDimensionMismatch, NumPixelsFailed = 0,
                        ErrorSum = 0, ImageDifference = None\<rparr>)
      else
        (let w = X a_size;
             h = Y a_size;
             bounds = Bounds image_a;
             identical = scan_rows image_a image_b bounds (Y (Min_pt bounds)) True in
         if identical
         then Inr (True, \<lparr>Reason = ReasonBinaryIdentical, NumPixelsFailed = 0,
                          ErrorSum = 0, ImageDifference = None\<rparr>)
         else compare_pixels image_a image_b args bounds w h))"

section \<open>Observations and example images\<close>

text \<open>What a caller reads off a result: the verdict, the count of failed pixels, or both with the reason.\<close>

definition verdict :: "error + bool \<times> CompareResult \<Rightarrow> error + bool" where
  "verdict res = map_sum id fst res"

definition failed_count :: "error + bool \<times> CompareResult \<Rightarrow> error + nat" where
  "failed_count res = map_sum id (\<lambda>p. NumPixelsFailed (snd p)) res"

definition summary :: "error + bool \<times> CompareResult \<Rightarrow> error + bool \<times> string \<times> nat" where
  "summary res = map_sum id (\<lambda>p. (fst p, Reason (snd p), NumPixelsFailed (snd p))) res"

text \<open>
  An image of one colour over a rectangle, answering the zero colour elsewhere, as an
  \<^verbatim>\<open>*image.RGBA\<close> filled with that colour does.
\<close>

definition rect :: "int \<Rightarrow> int \<Rightarrow> int \<Rightarrow> int \<Rightarrow> rectangle" where
  "rect x0 y0 x1 y1 = \<lparr>Min_pt = \<lparr>X = x0, Y = y0\<rparr>, Max_pt = \<lparr>X = x1, Y = y1\<rparr>\<rparr>"

definition uniform_image :: "rectangle \<Rightarrow> rgba \<Rightarrow> Image" where
  "uniform_image r c = \<lparr>Bounds = r, At = (\<lambda>x y. if point_in x y r then c else (0, 0, 0, 0))\<rparr>"

definition opaque_white :: rgba where
  "opaque_white = (65535, 65535, 65535, 65535)"

definition opaque_black :: rgba where
  "opaque_black = (0, 0, 0, 65535)"

definition white_2x2 :: Image where
  "white_2x2 = uniform_image (rect 0 0 2 2) opaque_white"

definition black_2x2 :: Image where
  "black_2x2 = uniform_image (rect 0 0 2 2) opaque_black"

text \<open>A 2 by 2 black image whose bounds start at \<open>(-2, 1)\<close>.\<close>

definition black_2x2_shifted :: Image where
  "black_2x2_shifted = uniform_image (rect (- 2) 1 0 3) opaque_black"

text \<open>A white and a black 2 by 2 image whose common bounds start at \<open>(1, 1)\<close>.\<close>

definition white_2x2_at_1_1 :: Image where
  "white_2x2_at_1_1 = uniform_image (rect 1 1 3 3) opaque_white"

definition black_2x2_at_1_1 :: Image where
  "black_2x2_at_1_1 = uniform_image (rect 1 1 3 3) opaque_black"

definition black_1x1 :: Image where
  "black_1x1 = uniform_image (rect 0 0 1 1) opaque_black"

text \<open>The pyramid all of whose levels are the constant buffer of \<open>w * h\<close> entries.\<close>

definition const_pyramid :: "int \<Rightarrow> int \<Rightarrow> float64 \<Rightarrow> pyramid" where
  "const_pyramid w h c = \<lparr>width = w, height = h, levels = replicate 8 (replicate (nat (w * h)) c)\<rparr>"

text \<open>The six buffers with the roles of the two images exchanged.\<close>

definition swap_buffers :: "buffers \<Rightarrow> buffers" where
  "swap_buffers s = \<lparr>a_lum = b_lum s, b_lum = a_lum s, a_a = b_a s, b_a = a_a s,
                      a_b = b_b s, b_b = a_b s\<rparr>"

text \<open>
  The shape of a pyramid that \<open>newPyramid\<close> builds from a buffer of \<open>w * h\<close> entries:
  8 levels of \<open>w * h\<close> entries each.
\<close>

definition well_shaped :: "int \<Rightarrow> int \<Rightarrow> pyramid \<Rightarrow> bool" where
  "well_shaped w h l =
     (width l = w \<and> height l = h \<and> length (levels l) = 8
      \<and> list_all (\<lambda>lv. length lv = nat (w * h)) (levels l))"

section \<open>Loops\<close>

lemma counting_rec:
  "counting lo hi = (if lo < hi then lo # counting (lo + 1) hi else [])"
proof (cases "lo < hi")
  case False
  then show ?thesis by (simp add: counting_def)
next
  case True
  then obtain n where n: "nat (hi - lo) = Suc n" and n': "nat (hi - (lo + 1)) = n"
    by (cases "nat (hi - lo)") auto
  have "map (\<lambda>k. lo + int k) [0..<Suc n] = lo # map (\<lambda>k. lo + 1 + int k) [0..<n]"
    by (simp add: upt_conv_Cons map_Suc_upt [symmetric] del: upt_Suc)
  with True n n' show ?thesis
    by (simp add: counting_def)
qed

lemma counting_empty [simp]: "hi \<le> lo \<Longrightarrow> counting lo hi = []"
  by (simp add: counting_def)

lemma counting_5: "counting (- 2) 3 = [- 2, - 1, 0, 1, 2]"
  by (simp add: counting_rec)

lemma counting_8: "counting 0 MAX_PYR_LEVELS = [0, 1, 2, 3, 4, 5, 6, 7]"
  by (simp add: counting_rec MAX_PYR_LEVELS_def)

lemma counting_6: "counting 0 (MAX_PYR_LEVELS - 2) = [0, 1, 2, 3, 4, 5]"
  by (simp add: counting_rec MAX_PYR_LEVELS_def)

text \<open>An invariant that advances with the loop variable, and a loop that does not panic.\<close>

lemma for_each_counting_from:
  assumes step: "\<And>i s. lo0 \<le> i \<Longrightarrow> i < hi \<Longrightarrow> P i s \<Longrightarrow> \<exists>s'. body i s = Inr s' \<and> P (i + 1) s'"
  shows "lo0 \<le> lo \<Longrightarrow> lo \<le> hi \<Longrightarrow> P lo s
         \<Longrightarrow> \<exists>s'. for_each (counting lo hi) body s = Inr s' \<and> P hi s'"
proof (induction "nat (hi - lo)" arbitrary: lo s)
  case 0
  then have "lo = hi" by simp
  with 0 show ?case by simp
next
  case (Suc n)
  then have lt: "lo < hi" by simp
  with Suc.prems step [of lo s] obtain s1 where s1: "body lo s = Inr s1" "P (lo + 1) s1"
    by auto
  have "n = nat (hi - (lo + 1))" using Suc.hyps(2) by simp
  from Suc.hyps(1) [OF this _ _ s1(2)] Suc.prems lt
  obtain s' where "for_each (counting (lo + 1) hi) body s1 = Inr s'" "P hi s'"
    by auto
  with s1 lt show ?case
    by (subst counting_rec) simp
qed

lemma for_each_counting_invariant:
  assumes "lo \<le> hi" and "P lo s"
    and "\<And>i s. lo \<le> i \<Longrightarrow> i < hi \<Longrightarrow> P i s \<Longrightarrow> \<exists>s'. body i s = Inr s' \<and> P (i + 1) s'"
  shows "\<exists>s'. for_each (counting lo hi) body s = Inr s' \<and> P hi s'"
  using for_each_counting_from [of lo hi P body lo s] assms by blast

section \<open>Pyramids of a constant buffer and of a degenerate size\<close>

lemma kernel_at:
  "index_at In_convolve kernel 0 = Inr 0.05" "index_at In_convolve kernel 1 = Inr 0.25" "index_at In_convolve kernel 2 = Inr 0.4"
  "index_at In_convolve kernel 3 = Inr 0.25" "index_at In_convolve kernel 4 = Inr 0.05"
  by (simp_all add: index_at_def kernel_def)

lemma index_in_grid:
  fixes w h nx ny :: int
  assumes "0 \<le> nx" "nx < w" "0 \<le> ny" "ny < h"
  shows "0 \<le> ny * w + nx" and "ny * w + nx < w * h"
proof -
  from assms show "0 \<le> ny * w + nx" by simp
  have "ny + 1 \<le> h" using assms by simp
  then have "(ny + 1) * w \<le> h * w"
    using assms by (intro mult_right_mono) auto
  then show "ny * w + nx < w * h"
    using assms by (simp add: algebra_simps)
qed

lemma reflect_in_range:
  fixes w x i :: int
  assumes "2 \<le> w" "0 \<le> x" "x < w" "- 2 \<le> i" "i \<le> 2"
  shows "0 \<le> (if abs_int (x + i) \<ge> w then 2 * w - abs_int (x + i) - 1 else abs_int (x + i))"
    and "(if abs_int (x + i) \<ge> w then 2 * w - abs_int (x + i) - 1 else abs_int (x + i)) < w"
  using assms by (auto simp: abs_int_def)

lemma convolve_tap_const:
  assumes "width l = w" "height l = h" "2 \<le> w" "2 \<le> h" "0 \<le> x" "x < w" "0 \<le> y" "y < h"
    and "- 2 \<le> i" "i \<le> 2" "- 2 \<le> j" "j \<le> 2"
  shows "convolve_tap l (replicate (nat (w * h)) c) x y i j r =
           and_then (index_at In_convolve kernel (i + 2)) (\<lambda>ki.
           and_then (index_at In_convolve kernel (j + 2)) (\<lambda>kj. Inr (r + ki * kj * c)))"
proof -
  define nx where "nx = (if abs_int (x + i) \<ge> w then 2 * w - abs_int (x + i) - 1 else abs_int (x + i))"
  define ny where "ny = (if abs_int (y + j) \<ge> h then 2 * h - abs_int (y + j) - 1 else abs_int (y + j))"
  have nx: "0 \<le> nx" "nx < w"
    unfolding nx_def using assms by (rule_tac reflect_in_range; simp)+
  have ny: "0 \<le> ny" "ny < h"
    unfolding ny_def using assms by (rule_tac reflect_in_range; simp)+
  have idx: "0 \<le> ny * w + nx" "ny * w + nx < w * h"
    using index_in_grid [OF nx ny] by auto
  then have "index_at In_convolve (replicate (nat (w * h)) c) (ny * w + nx) = Inr c"
    by (simp add: index_at_def)
  moreover have "convolve_tap l (replicate (nat (w * h)) c) x y i j r =
      and_then (index_at In_convolve kernel (i + 2)) (\<lambda>ki.
      and_then (index_at In_convolve kernel (j + 2)) (\<lambda>kj.
      and_then (index_at In_convolve (replicate (nat (w * h)) c) (ny * w + nx)) (\<lambda>v.
      Inr (r + ki * kj * v))))"
    unfolding convolve_tap_def Let_def nx_def ny_def assms(1,2) by (rule refl)
  ultimately show ?thesis
    by (simp add: and_then_def)
qed

lemma convolve_pixel_const:
  assumes "width l = w" "height l = h" "2 \<le> w" "2 \<le> h" "0 \<le> x" "x < w" "0 \<le> y" "y < h"
  shows "convolve_pixel l (replicate (nat (w * h)) c) x y = Inr c"
  using assms
  by (simp add: convolve_pixel_def counting_5 convolve_tap_const kernel_at and_then_def)



lemma convolve_row_const:
  assumes l: "width l = w" "height l = h" and wh: "2 \<le> w" "2 \<le> h" and y: "0 \<le> y" "y < h"
    and a: "length a = nat (w * h)" "\<forall>k. 0 \<le> k \<and> k < y * w \<longrightarrow> a ! nat k = c"
  shows "\<exists>a'. for_each (counting 0 (width l))
                 (\<lambda>x. convolve_at l (replicate (nat (w * h)) c) y x) a = Inr a'
              \<and> length a' = nat (w * h)
              \<and> (\<forall>k. 0 \<le> k \<and> k < (y + 1) * w \<longrightarrow> a' ! nat k = c)"
proof -
  let ?Q = "\<lambda>x a. length a = nat (w * h) \<and> (\<forall>k. 0 \<le> k \<and> k < y * w + x \<longrightarrow> a ! nat k = c)"
  have "\<exists>a'. for_each (counting 0 w)
               (\<lambda>x. convolve_at l (replicate (nat (w * h)) c) y x) a = Inr a' \<and> ?Q w a'"
  proof (rule for_each_counting_invariant [where P = ?Q])
    show "0 \<le> w" using wh by simp
    show "?Q 0 a" using a by simp
  next
    fix x s
    assume x: "0 \<le> x" "x < w" and q: "?Q x s"
    have idx: "0 \<le> y * w + x" "y * w + x < w * h"
      using index_in_grid [OF x y] by auto
    have px: "convolve_pixel l (replicate (nat (w * h)) c) x y = Inr c"
      using l wh x y by (rule convolve_pixel_const)
    have st: "convolve_at l (replicate (nat (w * h)) c) y x s = Inr (s[nat (y * w + x) := c])"
      using idx q l by (simp add: convolve_at_def px and_then_def store_at_def)
    have "?Q (x + 1) (s[nat (y * w + x) := c])"
    proof (intro conjI allI impI)
      show "length (s[nat (y * w + x) := c]) = nat (w * h)" using q by simp
    next
      fix k assume k: "0 \<le> k \<and> k < y * w + (x + 1)"
      show "s[nat (y * w + x) := c] ! nat k = c"
      proof (cases "k = y * w + x")
        case True
        with idx q show ?thesis by simp
      next
        case False
        with k q idx have "s ! nat k = c" by auto
        moreover from False k idx have "nat k \<noteq> nat (y * w + x)" by auto
        ultimately show ?thesis by simp
      qed
    qed
    with st show "\<exists>s'. convolve_at l (replicate (nat (w * h)) c) y x s = Inr s' \<and> ?Q (x + 1) s'"
      by blast
  qed
  then show ?thesis
    using l by (simp add: algebra_simps)
qed

lemma convolve_const:
  assumes l: "width l = w" "height l = h" and wh: "2 \<le> w" "2 \<le> h"
    and a: "length a = nat (w * h)"
  shows "convolve l a (replicate (nat (w * h)) c) = Inr (replicate (nat (w * h)) c)"
proof -
  let ?b = "replicate (nat (w * h)) c"
  let ?P = "\<lambda>y a. length a = nat (w * h) \<and> (\<forall>k. 0 \<le> k \<and> k < y * w \<longrightarrow> a ! nat k = c)"
  have pos: "0 < w * h" using wh by simp
  have "\<exists>a'. for_each (counting 0 h)
               (\<lambda>y. for_each (counting 0 (width l)) (\<lambda>x. convolve_at l ?b y x)) a = Inr a'
             \<and> ?P h a'"
  proof (rule for_each_counting_invariant [where P = ?P])
    show "0 \<le> h" using wh by simp
    show "?P 0 a" using a by simp
  next
    fix y s
    assume "0 \<le> y" "y < h" "?P y s"
    then show "\<exists>s'. for_each (counting 0 (width l)) (\<lambda>x. convolve_at l ?b y x) s = Inr s'
                   \<and> ?P (y + 1) s'"
      using convolve_row_const [OF l wh, of y s c] by blast
  qed
  then obtain a' where a': "for_each (counting 0 h)
       (\<lambda>y. for_each (counting 0 (width l)) (\<lambda>x. convolve_at l ?b y x)) a = Inr a'"
    "length a' = nat (w * h)" "\<forall>k. 0 \<le> k \<and> k < h * w \<longrightarrow> a' ! nat k = c"
    by blast
  have "a' = ?b"
  proof (rule nth_equalityI)
    show "length a' = length ?b" using a' by simp
  next
    fix i assume "i < length a'"
    with a'(2) have "0 \<le> int i \<and> int i < h * w" by (simp add: mult.commute)
    with a'(3) have "a' ! nat (int i) = c" by blast
    with \<open>i < length a'\<close> a'(2) show "a' ! i = ?b ! i" by simp
  qed
  with a' a pos l show ?thesis
    by (simp add: convolve_def)
qed


lemma empty_levels:
  "replicate (nat MAX_PYR_LEVELS) ([] :: float64 list) = [[], [], [], [], [], [], [], []]"
  by (simp add: MAX_PYR_LEVELS_def eval_nat_numeral)

lemma newPyramid_level_const:
  assumes "width l = w" "height l = h" "2 \<le> w" "2 \<le> h" "1 \<le> i"
    and "levels l ! nat (i - 1) = replicate (nat (w * h)) c"
  shows "newPyramid_level (replicate (nat (w * h)) c) w h i l =
           Inr (l\<lparr>levels := (levels l)[nat i := replicate (nat (w * h)) c]\<rparr>)"
proof -
  have "1 < w * h"
    using assms(3,4) mult_mono [of 2 w 2 h] by simp
  then show ?thesis
    using assms by (simp add: newPyramid_level_def convolve_const and_then_def)
qed

lemma newPyramid_const:
  assumes "2 \<le> w" "2 \<le> h"
  shows "newPyramid (replicate (nat (w * h)) c) w h =
           Inr \<lparr>width = w, height = h, levels = replicate 8 (replicate (nat (w * h)) c)\<rparr>"
  using assms
  by (simp add: newPyramid_def counting_8 empty_levels newPyramid_level_const
      newPyramid_level_def [where i = 0] eval_nat_numeral)

lemma newPyramid_degenerate:
  assumes "w * h \<le> 1"
  shows "newPyramid img w h = Inr \<lparr>width = w, height = h, levels = replicate 8 img\<rparr>"
  using assms
  by (simp add: newPyramid_def counting_8 empty_levels newPyramid_level_def eval_nat_numeral)


section \<open>The two short paths of YeeCompare\<close>

lemma scan_row_same:
  "image_a = image_b \<Longrightarrow> scan_row image_a image_b bounds x y identical = (y, identical)"
proof (induction image_a image_b bounds x y identical rule: scan_row.induct)
  case (1 image_a image_b bounds x y identical)
  then show ?case
    by (subst scan_row.simps) simp
qed

lemma scan_rows_same:
  "image_a = image_b \<Longrightarrow> scan_rows image_a image_b bounds y identical = identical"
proof (induction image_a image_b bounds y identical rule: scan_rows.induct)
  case (1 image_a image_b bounds y identical)
  then show ?case
    by (subst scan_rows.simps) (simp add: scan_row_same)
qed

text \<open>
  When the scan reports a difference, the loops have run: the bounds are not empty, so
  \<open>w\<close>, \<open>h\<close> and \<open>dim\<close> are positive where the buffers are made.
\<close>

lemma scan_rows_found:
  assumes "\<not> scan_rows image_a image_b bounds y True"
  shows "X (Min_pt bounds) < X (Max_pt bounds) \<and> y < Y (Max_pt bounds)"
  using assms
proof (induction image_a image_b bounds y "True" rule: scan_rows.induct)
  case (1 image_a image_b bounds y)
  from "1.prems" have y: "y < Y (Max_pt bounds)"
    by (subst (asm) scan_rows.simps) (simp split: if_splits)
  show ?case
  proof (cases "X (Min_pt bounds) < X (Max_pt bounds)")
    case True
    with y show ?thesis by simp
  next
    case False
    then have r: "scan_row image_a image_b bounds (X (Min_pt bounds)) y True = (y, True)"
      by (subst scan_row.simps) simp
    with "1.prems" y have "\<not> scan_rows image_a image_b bounds (y + 1) True"
      by (subst (asm) scan_rows.simps) simp
    from "1.hyps" [OF y r [symmetric] this] False show ?thesis by simp
  qed
qed

lemma YeeCompare_same:
  "YeeCompare image_i image_i args =
     Inr (True, \<lparr>Reason = ReasonBinaryIdentical, NumPixelsFailed = 0, ErrorSum = 0,
                  ImageDifference = None\<rparr>)"
  by (simp add: YeeCompare_def scan_rows_same)

lemma compare_pixels_reason:
  assumes "compare_pixels image_a image_b args bounds w h = Inr (i, r)"
  shows "Reason r = ReasonIndistinguishable \<or> Reason r = ReasonVisiblyDifferent"
  using assms
  by (auto simp: compare_pixels_def and_then_def Let_def split: sum.splits if_splits)


text \<open>
  C1. Comparing an image with itself: for every image and every configuration the
  scan finds no differing pixel, and \<open>YeeCompare\<close> returns \<open>true\<close> with the reason
  \<open>ReasonBinaryIdentical\<close>, before any conversion or pyramid is computed.
\<close>

theorem identity_binary_identical:
  "\<exists>r. YeeCompare image_i image_i args = Inr (True, r) \<and> Reason r = ReasonBinaryIdentical"
  by (simp add: YeeCompare_def scan_rows_same)

text \<open>
  C2. Images whose widths or heights differ: whatever the pixels and the
  configuration, \<open>YeeCompare\<close> returns (it does not panic) with the reason
  \<open>ReasonDimensionMismatch\<close> and no difference bitmap; the verdict is \<open>false\<close>.
\<close>

theorem dimension_mismatch:
  assumes "X (Size (Bounds image_a)) \<noteq> X (Size (Bounds image_b))
           \<or> Y (Size (Bounds image_a)) \<noteq> Y (Size (Bounds image_b))"
  shows "\<exists>r. YeeCompare image_a image_b args = Inr (False, r)
             \<and> Reason r = ReasonDimensionMismatch \<and> ImageDifference r = None"
proof -
  from assms have "Size (Bounds image_a) \<noteq> Size (Bounds image_b)"
    by auto
  then show ?thesis
    by (simp add: YeeCompare_def)
qed

theorem dimension_mismatch_witness:
  "X (Size (Bounds white_2x2)) \<noteq> X (Size (Bounds black_1x1))
   \<and> (\<exists>r. YeeCompare white_2x2 black_1x1 DefaultParameters = Inr (False, r)
           \<and> Reason r = ReasonDimensionMismatch \<and> ImageDifference r = None)"
proof -
  have x: "X (Size (Bounds white_2x2)) \<noteq> X (Size (Bounds black_1x1))"
    by (simp add: white_2x2_def black_1x1_def uniform_image_def rect_def Size_def)
  then have h: "X (Size (Bounds white_2x2)) \<noteq> X (Size (Bounds black_1x1))
      \<or> Y (Size (Bounds white_2x2)) \<noteq> Y (Size (Bounds black_1x1))"
    by (rule disjI1)
  from x dimension_mismatch [OF h, of DefaultParameters] show ?thesis
    by (rule conjI)
qed

text \<open>
  C10. A result whose reason is that of one of the two short paths, dimension
  mismatch or binary identity, carries \<open>NumPixelsFailed = 0\<close>, \<open>ErrorSum = 0\<close> and
  no difference bitmap at all (\<open>nil\<close>).
\<close>

theorem short_circuit_result:
  assumes "YeeCompare image_a image_b args = Inr (i, r)"
    and "Reason r = ReasonDimensionMismatch \<or> Reason r = ReasonBinaryIdentical"
  shows "NumPixelsFailed r = 0 \<and> ErrorSum r = 0 \<and> ImageDifference r = None"
proof (cases "Size (Bounds image_a) \<noteq> Size (Bounds image_b)")
  case True
  with assms(1) show ?thesis
    by (auto simp: YeeCompare_def)
next
  case sizes: False
  show ?thesis
  proof (cases "scan_rows image_a image_b (Bounds image_a) (Y (Min_pt (Bounds image_a))) True")
    case True
    with sizes assms(1) show ?thesis
      by (auto simp: YeeCompare_def Let_def)
  next
    case False
    with sizes assms(1) have
      "compare_pixels image_a image_b args (Bounds image_a)
         (X (Size (Bounds image_a))) (Y (Size (Bounds image_a))) = Inr (i, r)"
      by (simp add: YeeCompare_def Let_def)
    from compare_pixels_reason [OF this] assms(2) show ?thesis
      by (auto simp: ReasonIndistinguishable_def ReasonVisiblyDifferent_def
          ReasonDimensionMismatch_def ReasonBinaryIdentical_def)
  qed
qed

theorem short_circuit_result_witness:
  "(Reason (snd (projr (YeeCompare white_2x2 white_2x2 DefaultParameters))) = ReasonDimensionMismatch
      \<or> Reason (snd (projr (YeeCompare white_2x2 white_2x2 DefaultParameters))) = ReasonBinaryIdentical)
   \<and> NumPixelsFailed (snd (projr (YeeCompare white_2x2 white_2x2 DefaultParameters))) = 0
   \<and> ErrorSum (snd (projr (YeeCompare white_2x2 white_2x2 DefaultParameters))) = 0
   \<and> ImageDifference (snd (projr (YeeCompare white_2x2 white_2x2 DefaultParameters))) = None"
proof -
  obtain i r where res: "YeeCompare white_2x2 white_2x2 DefaultParameters = Inr (i, r)"
    and r: "Reason r = ReasonBinaryIdentical"
    using YeeCompare_same [of white_2x2 DefaultParameters] by simp
  from r have h: "Reason r = ReasonDimensionMismatch \<or> Reason r = ReasonBinaryIdentical"
    by (rule disjI2)
  from short_circuit_result [OF res h] h res show ?thesis
    by simp
qed

section \<open>The threshold\<close>

lemma fuse_delta_e_threshold:
  "fuse_delta_e (args\<lparr>ThresholdPixels := t\<rparr>) = fuse_delta_e args"
  by (intro ext) (simp add: fuse_delta_e_def)

lemma fuse_pixel_threshold:
  "fuse_pixel (args\<lparr>ThresholdPixels := t\<rparr>) = fuse_pixel args"
  by (intro ext) (simp add: fuse_pixel_def fuse_delta_e_threshold cong: if_cong)

lemma compare_pixels_threshold:
  "compare_pixels image_a image_b (args\<lparr>ThresholdPixels := t\<rparr>) bounds w h =
     map_sum id (\<lambda>(i, r). (NumPixelsFailed r < t,
        r\<lparr>Reason := (if NumPixelsFailed r < t then ReasonIndistinguishable
                      else ReasonVisiblyDifferent)\<rparr>))
       (compare_pixels image_a image_b args bounds w h)"
  by (simp add: compare_pixels_def fuse_pixel_threshold and_then_def Let_def split: sum.splits)

text \<open>
  C5. With the images and the rest of the configuration fixed, raising
  \<open>ThresholdPixels\<close> from \<open>t1\<close> to \<open>t2\<close> leaves the count of failed pixels (or the
  panic) as it is, and a verdict \<open>true\<close> at \<open>t1\<close> stays \<open>true\<close> at \<open>t2\<close>: the verdict
  can only move from different to indistinguishable.
\<close>

theorem threshold_monotone:
  assumes "t1 \<le> t2"
  shows "failed_count (YeeCompare image_a image_b (args\<lparr>ThresholdPixels := t2\<rparr>))
           = failed_count (YeeCompare image_a image_b (args\<lparr>ThresholdPixels := t1\<rparr>))
         \<and> (verdict (YeeCompare image_a image_b (args\<lparr>ThresholdPixels := t1\<rparr>)) = Inr True
              \<longrightarrow> verdict (YeeCompare image_a image_b (args\<lparr>ThresholdPixels := t2\<rparr>)) = Inr True)"
  using assms
  by (cases "compare_pixels image_a image_b args (Bounds image_a)
               (X (Size (Bounds image_a))) (Y (Size (Bounds image_a)))")
     (auto simp: YeeCompare_def Let_def compare_pixels_threshold failed_count_def verdict_def)

section \<open>The adaptation level\<close>

lemma adaptation_unfold:
  "adaptation n =
     (if n < 1 then 0 else if n < 2 then 1 else if n < 4 then 2 else if n < 8 then 3
      else if n < 16 then 4 else if n < 32 then 5 else if n < 64 then 6 else 7)"
  unfolding adaptation_def
  by (simp add: adaptation_loop.simps MAX_PYR_LEVELS_def)

lemma least_power: 
  fixes n :: real
  assumes "n < 2 ^ k" and "k = 0 \<or> 2 ^ (k - 1) \<le> n"
  shows "(LEAST i::nat. n < 2 ^ i) = k"
proof (rule Least_equality)
  show "n < 2 ^ k" by fact
next
  fix y :: nat
  assume y: "n < 2 ^ y"
  show "k \<le> y"
  proof (rule ccontr)
    assume "\<not> k \<le> y"
    then have "y \<le> k - 1" and "k \<noteq> 0" by auto
    then have "(2::real) ^ y \<le> 2 ^ (k - 1)"
      by (intro power_increasing) auto
    with assms(2) \<open>k \<noteq> 0\<close> y show False by linarith
  qed
qed

text \<open>
  C7. \<open>adaptation\<close> returns the least level \<open>i\<close> whose pixel count \<open>2 ^ i\<close> (starting
  at 1 and doubling per level) exceeds its argument when one of the levels 0 to 7
  does, and 7 otherwise.
\<close>

theorem adaptation_smallest_level:
  "adaptation n = (if \<exists>i::nat. i \<le> 7 \<and> n < 2 ^ i then int (LEAST i::nat. n < 2 ^ i) else 7)"
proof (cases "n < 128")
  case False
  have "\<not> (\<exists>i::nat. i \<le> 7 \<and> n < 2 ^ i)"
  proof
    assume "\<exists>i::nat. i \<le> 7 \<and> n < 2 ^ i"
    then obtain i :: nat where i: "i \<le> 7" "n < 2 ^ i" by blast
    then have "(2::real) ^ i \<le> 2 ^ 7" by (intro power_increasing) auto
    with i False show False by simp
  qed
  then show ?thesis
    by (subst if_not_P) (use False in \<open>simp_all add: adaptation_unfold\<close>)
next
  case True
  then have ex: "\<exists>i::nat. i \<le> 7 \<and> n < 2 ^ i"
    by (intro exI [of _ 7]) simp
  consider "n < 1" | "1 \<le> n" "n < 2" | "2 \<le> n" "n < 4" | "4 \<le> n" "n < 8"
    | "8 \<le> n" "n < 16" | "16 \<le> n" "n < 32" | "32 \<le> n" "n < 64" | "64 \<le> n" "n < 128"
    using True by linarith
  then show ?thesis
  proof cases
    case 1
    then have "(LEAST i::nat. n < 2 ^ i) = 0" by (intro least_power) auto
    with 1 show ?thesis by (subst if_P [OF ex]) (simp add: adaptation_unfold)
  next
    case 2
    then have "(LEAST i::nat. n < 2 ^ i) = 1" by (intro least_power) auto
    with 2 show ?thesis by (subst if_P [OF ex]) (simp add: adaptation_unfold)
  next
    case 3
    then have "(LEAST i::nat. n < 2 ^ i) = 2" by (intro least_power) auto
    with 3 show ?thesis by (subst if_P [OF ex]) (simp add: adaptation_unfold)
  next
    case 4
    then have "(LEAST i::nat. n < 2 ^ i) = 3" by (intro least_power) auto
    with 4 show ?thesis by (subst if_P [OF ex]) (simp add: adaptation_unfold)
  next
    case 5
    then have "(LEAST i::nat. n < 2 ^ i) = 4" by (intro least_power) auto
    with 5 show ?thesis by (subst if_P [OF ex]) (simp add: adaptation_unfold)
  next
    case 6
    then have "(LEAST i::nat. n < 2 ^ i) = 5" by (intro least_power) auto
    with 6 show ?thesis by (subst if_P [OF ex]) (simp add: adaptation_unfold)
  next
    case 7
    then have "(LEAST i::nat. n < 2 ^ i) = 6" by (intro least_power) auto
    with 7 show ?thesis by (subst if_P [OF ex]) (simp add: adaptation_unfold)
  next
    case 8
    then have "(LEAST i::nat. n < 2 ^ i) = 7" by (intro least_power) auto
    with 8 show ?thesis by (subst if_P [OF ex]) (simp add: adaptation_unfold)
  qed
qed

text \<open>
  C8. When \<open>w * h \<le> 1\<close>, in particular for a 1 by 1 buffer, \<open>newPyramid\<close> returns a
  pyramid all of whose 8 levels are the input buffer itself: no convolution is run.
\<close>

theorem pyramid_degenerate_levels:
  assumes "w * h \<le> 1"
  shows "\<exists>l. newPyramid img w h = Inr l \<and> length (levels l) = 8
             \<and> list_all (\<lambda>lv. lv = img) (levels l)"
  using newPyramid_degenerate [OF assms, of img] by (simp add: eval_nat_numeral)

theorem pyramid_degenerate_levels_witness:
  "(1::int) * 1 \<le> 1
   \<and> (\<exists>l. newPyramid [42] 1 1 = Inr l \<and> length (levels l) = 8
             \<and> list_all (\<lambda>lv. lv = [42]) (levels l))"
proof -
  have h: "(1::int) * 1 \<le> 1" by simp
  from h pyramid_degenerate_levels [OF h, of "[42]"] show ?thesis
    by (rule conjI)
qed

section \<open>Bounds on the threshold of visibility\<close>

lemma Pow_10_pos: "0 < Pow 10 r"
  by (simp add: Pow_def)

lemma tvi_pos: "0 < tvi x"
  by (simp add: tvi_def Let_def Pow_10_pos)

lemma Pow_10_less_100:
  assumes "r < 2"
  shows "Pow 10 r < 100"
proof (cases "r = 0")
  case True
  then show ?thesis by (simp add: Pow_def)
next
  case False
  have "(10::real) powr r < 10 powr 2"
    using assms by (intro powr_less_mono) auto
  then show ?thesis using False by (simp add: Pow_def)
qed

lemma photopic_exponent:
  fixes b :: real
  assumes "0 \<le> b" "b < 1.1231"
  shows "Pow b 2.7 < 2"
proof -
  have "b powr 2.7 \<le> 1.1231 powr 2.7"
    using assms by (intro powr_mono2) auto
  also have "\<dots> \<le> (1.1231::real) powr 3"
    by (intro powr_mono) auto
  also have "\<dots> = 1.1231 ^ 3"
    by (simp add: powr_numeral)
  also have "\<dots> < (2::real)"
    by (simp add: power3_eq_cube)
  finally show ?thesis by (simp add: Pow_def)
qed

lemma tvi_less_100:
  assumes "1 \<le> x" "x < 100"
  shows "tvi x < 100"
proof -
  define log_a where "log_a = Log10 x"
  have lo: "0 \<le> log_a"
    unfolding log_a_def Log10_def using assms by simp
  have "log 10 x < log 10 100"
    using assms by (subst log_less_cancel_iff) auto
  moreover have "log 10 100 = 2"
    using log_pow_cancel [of 10 2] by simp
  ultimately have hi: "log_a < 2"
    by (simp add: log_a_def Log10_def)
  show ?thesis
  proof (cases "log_a < 1.9")
    case True
    have "0 \<le> 0.249 * log_a + 0.65" "0.249 * log_a + 0.65 < 1.1231"
      using lo True by auto
    then have "Pow (0.249 * log_a + 0.65) 2.7 < 2"
      by (rule photopic_exponent)
    then have "Pow 10 (Pow (0.249 * log_a + 0.65) 2.7 - 0.72) < 100"
      by (intro Pow_10_less_100) simp
    with lo True show ?thesis
      by (simp add: tvi_def Let_def log_a_def [symmetric])
  next
    case False
    have "Pow 10 (log_a - 1.255) < 100"
      using hi by (intro Pow_10_less_100) simp
    with lo False show ?thesis
      by (simp add: tvi_def Let_def log_a_def [symmetric])
  qed
qed

lemma adaptation_range: "0 \<le> adaptation n \<and> adaptation n < 8"
  by (simp add: adaptation_unfold)

section \<open>The test on pyramids of constant buffers\<close>

lemma get_value_const:
  assumes "0 \<le> x" "x < w" "0 \<le> y" "y < h" "0 \<le> lev" "lev < 8"
  shows "get_value (const_pyramid w h c) x y lev = Inr c"
proof -
  have "0 \<le> y * w + x" "y * w + x < w * h"
    using index_in_grid [OF assms(1-4)] by auto
  then have "0 \<le> x + y * w" "x + y * w < w * h"
    by (simp_all add: add.commute)
  with assms(5,6) show ?thesis
    by (simp add: get_value_def const_pyramid_def index_at_def and_then_def)
qed

lemma fuse_level_const:
  assumes "0 \<le> x" "x < w" "0 \<le> y" "y < h" "0 \<le> i" "i < 6"
  shows "fuse_level (const_pyramid w h ca) (const_pyramid w h cb) cpd f_freq adapt x y i st = Inr st"
  using assms
  by (cases st) (simp add: fuse_level_def get_value_const and_then_def)

lemma fuse_factor_const:
  assumes "0 \<le> x" "x < w" "0 \<le> y" "y < h"
  shows "fuse_factor (const_pyramid w h ca) (const_pyramid w h cb) cpd f_freq adapt x y = Inr 1"
  using assms
  by (simp add: fuse_factor_def counting_6 fuse_level_const and_then_def)

lemma fuse_delta_e_zero:
  assumes "0 \<le> index" "index < int n"
    and "a_a bufs = replicate n 0" "b_a bufs = replicate n 0"
    and "a_b bufs = replicate n 0" "b_b bufs = replicate n 0"
  shows "fuse_delta_e args bufs adapt index = Inr 0"
  using assms
  by (simp add: fuse_delta_e_def index_at_def and_then_def)

lemma fuse_pixel_const:
  assumes "0 \<le> x" "x < w" "0 \<le> y" "y < h" "0 \<le> al" "al < 8"
    and "a_a bufs = replicate (nat (w * h)) 0" "b_a bufs = replicate (nat (w * h)) 0"
    and "a_b bufs = replicate (nat (w * h)) 0" "b_b bufs = replicate (nat (w * h)) 0"
  shows "fuse_pixel args (const_pyramid w h ca) (const_pyramid w h cb) bufs cpd f_freq al w y x s =
           Inr (fuse_mark x y (\<not> \<bar>ca - cb\<bar> > tvi (max ((ca + cb) * 0.5) 0.00001))
                  (s\<lparr>error_sum := error_sum s + \<bar>ca - cb\<bar>\<rparr>))"
proof -
  have idx: "0 \<le> y * w + x" "y * w + x < int (nat (w * h))"
    using index_in_grid [OF assms(1-4)] by auto
  have de: "fuse_delta_e args bufs adapt (y * w + x) = Inr 0" for adapt
    using idx assms(7-10) by (rule fuse_delta_e_zero)
  show ?thesis
    using assms(1-6)
    by (simp add: fuse_pixel_def get_value_const fuse_factor_const de and_then_def Let_def)
qed

section \<open>A white image against a black image\<close>

lemma pixel_xyz_white: "g \<noteq> 0 \<Longrightarrow> pixel_xyz opaque_white g = (0.950468, 1.0000007, 1.0889687)"
  by (simp add: pixel_xyz_def opaque_white_def Pow_def adobe_rgb_to_xyz_def)

lemma pixel_xyz_dark: "g \<noteq> 0 \<Longrightarrow> pixel_xyz (0, 0, 0, alpha) g = (0, 0, 0)"
  by (simp add: pixel_xyz_def Pow_def adobe_rgb_to_xyz_def)

lemma convert_pixel_white_dark:
  assumes "At image_a x y = opaque_white" "At image_b x y = (0, 0, 0, alpha)" "g \<noteq> 0"
  shows "convert_pixel image_a image_b w g lum y x s =
     and_then (store_at In_YeeCompare (a_a s) (x + y * w) 0) (\<lambda>a_a'.
     and_then (store_at In_YeeCompare (a_b s) (x + y * w) 0) (\<lambda>a_b'.
     and_then (store_at In_YeeCompare (b_a s) (x + y * w) 0) (\<lambda>b_a'.
     and_then (store_at In_YeeCompare (b_b s) (x + y * w) 0) (\<lambda>b_b'.
     and_then (store_at In_YeeCompare (a_lum s) (x + y * w) (1.0000007 * lum)) (\<lambda>a_lum'.
     and_then (store_at In_YeeCompare (b_lum s) (x + y * w) 0) (\<lambda>b_lum'.
     Inr \<lparr>a_lum = a_lum', b_lum = b_lum', a_a = a_a', b_a = b_a',
          a_b = a_b', b_b = b_b'\<rparr>))))))"
  using assms
  by (simp add: convert_pixel_def pixel_xyz_white pixel_xyz_dark xyz_to_lab_def white_def
      adobe_rgb_to_xyz_def lab_f_def Pow_def Let_def)

lemma replicate_4: "replicate 4 x = [x, x, x, x]"
  by (simp add: eval_nat_numeral)

lemma counting_2: "counting 0 2 = [0, 1]"
  by (simp add: counting_rec)

lemma At_uniform: "At (uniform_image r c) x y = (if point_in x y r then c else (0, 0, 0, 0))"
  by (simp add: uniform_image_def)

lemma convert_pixel_white_black:
  assumes "0 \<le> x" "x < 2" "0 \<le> y" "y < 2" "g \<noteq> 0"
  shows "convert_pixel white_2x2 black_2x2 w g lum y x s =
     and_then (store_at In_YeeCompare (a_a s) (x + y * w) 0) (\<lambda>a_a'.
     and_then (store_at In_YeeCompare (a_b s) (x + y * w) 0) (\<lambda>a_b'.
     and_then (store_at In_YeeCompare (b_a s) (x + y * w) 0) (\<lambda>b_a'.
     and_then (store_at In_YeeCompare (b_b s) (x + y * w) 0) (\<lambda>b_b'.
     and_then (store_at In_YeeCompare (a_lum s) (x + y * w) (1.0000007 * lum)) (\<lambda>a_lum'.
     and_then (store_at In_YeeCompare (b_lum s) (x + y * w) 0) (\<lambda>b_lum'.
     Inr \<lparr>a_lum = a_lum', b_lum = b_lum', a_a = a_a', b_a = b_a',
          a_b = a_b', b_b = b_b'\<rparr>))))))"
  using assms
  by (intro convert_pixel_white_dark [where alpha = 65535])
     (simp_all add: white_2x2_def black_2x2_def At_uniform point_in_def rect_def opaque_black_def)

lemma convert_white_black_args:
  assumes "g \<noteq> 0"
  shows "convert white_2x2 black_2x2 (rect 0 0 2 2) 2 4 g lum =
     Inr \<lparr>a_lum = replicate 4 (1.0000007 * lum), b_lum = replicate 4 0,
          a_a = replicate 4 0, b_a = replicate 4 0, a_b = replicate 4 0, b_b = replicate 4 0\<rparr>"
  using assms
  by (simp add: convert_def rect_def counting_2 convert_pixel_white_black store_at_def
      and_then_def replicate_4)

lemma newPyramid_const_2x2: "newPyramid (replicate 4 c) 2 2 = Inr (const_pyramid 2 2 c)"
  using newPyramid_const [of 2 2 c] by (simp add: const_pyramid_def)

lemma fuse_loop_const_2x2:
  assumes "0 \<le> al" "al < 8"
    and "a_a bufs = replicate 4 0" "b_a bufs = replicate 4 0"
    and "a_b bufs = replicate 4 0" "b_b bufs = replicate 4 0"
  shows "map_sum id pixels_failed
           (for_each (counting 0 2) (\<lambda>y. for_each (counting 0 2)
              (fuse_pixel args (const_pyramid 2 2 ca) (const_pyramid 2 2 cb) bufs cpd f_freq al 2 y))
              \<lparr>pixels_failed = 0, error_sum = 0, diffImg = d\<rparr>)
         = Inr (if \<bar>ca - cb\<bar> > tvi (max ((ca + cb) * 0.5) 0.00001) then 4 else 0)"
proof -
  have px: "fuse_pixel args (const_pyramid 2 2 ca) (const_pyramid 2 2 cb) bufs cpd f_freq al 2 y x s =
           Inr (fuse_mark x y (\<not> \<bar>ca - cb\<bar> > tvi (max ((ca + cb) * 0.5) 0.00001))
                  (s\<lparr>error_sum := error_sum s + \<bar>ca - cb\<bar>\<rparr>))"
    if "0 \<le> x" "x < 2" "0 \<le> y" "y < 2" for x y s
    using that assms by (intro fuse_pixel_const) simp_all
  show ?thesis
    by (simp add: counting_2 px fuse_mark_def)
qed

lemma compare_pixels_const_2x2:
  assumes "convert image_a image_b bounds 2 4 (Gamma args) (Luminance args) = Inr bufs"
    and "a_lum bufs = replicate 4 ca" "b_lum bufs = replicate 4 cb"
    and "a_a bufs = replicate 4 0" "b_a bufs = replicate 4 0"
    and "a_b bufs = replicate 4 0" "b_b bufs = replicate 4 0"
  shows "failed_count (compare_pixels image_a image_b args bounds 2 2)
           = Inr (if \<bar>ca - cb\<bar> > tvi (max ((ca + cb) * 0.5) 0.00001) then 4 else 0)"
proof -
  define al where "al = adaptation (to_degrees (2 * tan (FieldOfView args * to_radians 0.5)))"
  have al: "0 \<le> al" "al < 8"
    using adaptation_range [of "to_degrees (2 * tan (FieldOfView args * to_radians 0.5))"]
    by (simp_all add: al_def)
  define cpd where
    "cpd = cpd_table (real_of_int 2 / to_degrees (2 * tan (FieldOfView args * to_radians 0.5)))"
  note loop = fuse_loop_const_2x2 [OF al assms(4-7), of args ca cb cpd "f_freq_table cpd"
      "NewRGBA (Bounds image_a)"]
  show ?thesis
    unfolding compare_pixels_def Let_def failed_count_def al_def [symmetric] cpd_def [symmetric]
    using assms(1-3) loop
    by (auto simp: and_then_def newPyramid_const_2x2 split: sum.splits)
qed

lemma compare_pixels_summary:
  "summary (compare_pixels image_a image_b args bounds w h) =
     map_sum id (\<lambda>n. (n < ThresholdPixels args,
                        if n < ThresholdPixels args then ReasonIndistinguishable
                        else ReasonVisiblyDifferent, n))
       (failed_count (compare_pixels image_a image_b args bounds w h))"
  by (simp add: compare_pixels_def summary_def failed_count_def and_then_def Let_def
      split: sum.splits)

lemma scan_white_black:
  "scan_rows white_2x2 black_2x2 (rect 0 0 2 2) 0 True = False"
  by (simp add: scan_rows.simps scan_row.simps rect_def white_2x2_def black_2x2_def
      At_uniform point_in_def opaque_white_def opaque_black_def)

lemma YeeCompare_white_black:
  "YeeCompare white_2x2 black_2x2 args
     = compare_pixels white_2x2 black_2x2 args (rect 0 0 2 2) 2 2"
  using scan_white_black
  by (simp add: YeeCompare_def Let_def white_2x2_def black_2x2_def uniform_image_def
      Size_def rect_def)

lemma failed_white_black_args:
  assumes "Gamma args \<noteq> 0" "Luminance args = 100"
  shows "failed_count (YeeCompare white_2x2 black_2x2 args) = Inr 4"
proof -
  have conv: "convert white_2x2 black_2x2 (rect 0 0 2 2) 2 4 (Gamma args) (Luminance args)
              = Inr \<lparr>a_lum = replicate 4 100.00007, b_lum = replicate 4 0,
                     a_a = replicate 4 0, b_a = replicate 4 0,
                     a_b = replicate 4 0, b_b = replicate 4 0\<rparr>"
    using convert_white_black_args [OF assms(1), of "Luminance args"] by (simp add: assms(2))
  have "tvi 50.000035 < 100"
    by (rule tvi_less_100) simp_all
  then have "\<bar>100.00007 - 0\<bar> > tvi (max ((100.00007 + 0) * 0.5) 0.00001)"
    by simp
  with compare_pixels_const_2x2 [OF conv, where ca = "100.00007" and cb = 0] show ?thesis
    by (simp add: YeeCompare_white_black)
qed

lemma summary_white_black_args:
  assumes "Gamma args \<noteq> 0" "Luminance args = 100"
  shows "summary (YeeCompare white_2x2 black_2x2 args) =
      Inr (4 < ThresholdPixels args,
           if 4 < ThresholdPixels args then ReasonIndistinguishable
           else ReasonVisiblyDifferent, 4)"
  using failed_white_black_args [OF assms]
  by (simp only: YeeCompare_white_black compare_pixels_summary map_sum.simps id_apply)

text \<open>
  C3, as the code has it. A 2 by 2 white image against a 2 by 2 black image under
  \<open>DefaultParameters\<close>: all 4 pixels fail the luminance test, and 4 is below
  \<open>ThresholdPixels = 100\<close>, so the verdict is \<open>true\<close> and the reason is
  \<open>ReasonIndistinguishable\<close>, with \<open>NumPixelsFailed = 4\<close>.
\<close>

theorem white_black_default:
  "summary (YeeCompare white_2x2 black_2x2 DefaultParameters)
     = Inr (True, ReasonIndistinguishable, 4)"
proof -
  have "Gamma DefaultParameters \<noteq> 0" "Luminance DefaultParameters = 100"
    and t: "ThresholdPixels DefaultParameters = 100"
    by (simp_all add: DefaultParameters_def)
  from summary_white_black_args [OF this(1,2)] t show ?thesis
    by simp
qed

text \<open>
  C3, as the specification states it, fails: the result is not
  \<open>(false, ReasonVisiblyDifferent, 4)\<close>.
\<close>

theorem white_black_default_counterexample:
  "summary (YeeCompare white_2x2 black_2x2 DefaultParameters)
     \<noteq> Inr (False, ReasonVisiblyDifferent, 4)"
proof -
  have "Gamma DefaultParameters \<noteq> 0" "Luminance DefaultParameters = 100"
    and t: "ThresholdPixels DefaultParameters = 100"
    by (simp_all add: DefaultParameters_def)
  from summary_white_black_args [OF this(1,2)] t show ?thesis
    by simp
qed

text \<open>
  The witness of C5: with the threshold 5 the verdict on the white and the black
  image is \<open>true\<close>, and it stays \<open>true\<close> with the threshold 100.
\<close>

theorem threshold_monotone_witness:
  "(5::nat) \<le> 100
   \<and> verdict (YeeCompare white_2x2 black_2x2 (DefaultParameters\<lparr>ThresholdPixels := 5\<rparr>)) = Inr True
   \<and> verdict (YeeCompare white_2x2 black_2x2 (DefaultParameters\<lparr>ThresholdPixels := 100\<rparr>)) = Inr True
   \<and> failed_count (YeeCompare white_2x2 black_2x2 (DefaultParameters\<lparr>ThresholdPixels := 100\<rparr>))
       = failed_count (YeeCompare white_2x2 black_2x2 (DefaultParameters\<lparr>ThresholdPixels := 5\<rparr>))"
proof -
  have h: "(5::nat) \<le> 100" by simp
  have "summary (YeeCompare white_2x2 black_2x2 (DefaultParameters\<lparr>ThresholdPixels := 5\<rparr>))
      = Inr (True, ReasonIndistinguishable, 4)"
    using summary_white_black_args [of "DefaultParameters\<lparr>ThresholdPixels := 5\<rparr>"]
    by (simp add: DefaultParameters_def)
  then have v5: "verdict (YeeCompare white_2x2 black_2x2
      (DefaultParameters\<lparr>ThresholdPixels := 5\<rparr>)) = Inr True"
    by (cases "YeeCompare white_2x2 black_2x2 (DefaultParameters\<lparr>ThresholdPixels := 5\<rparr>)")
       (auto simp: summary_def verdict_def)
  from threshold_monotone [OF h, of white_2x2 black_2x2 DefaultParameters] v5 h
  show ?thesis by blast
qed

section \<open>Exchanging the two images\<close>

lemma and_then_Inr_iff: "and_then m f = Inr r \<longleftrightarrow> (\<exists>v. m = Inr v \<and> f v = Inr r)"
  by (cases m) (simp_all add: and_then_def)

lemma for_each_related:
  assumes "\<And>x s s'. body x s = Inr s' \<Longrightarrow> body' x (\<phi> s) = Inr (\<phi> s')"
  shows "for_each xs body s = Inr s' \<Longrightarrow> for_each xs body' (\<phi> s) = Inr (\<phi> s')"
proof (induction xs arbitrary: s)
  case Nil
  then show ?case by simp
next
  case (Cons x xs)
  then obtain s1 where s1: "body x s = Inr s1" "for_each xs body s1 = Inr s'"
    by (auto split: sum.splits)
  from assms [OF s1(1)] Cons.IH [OF s1(2)] show ?case by simp
qed

lemma scan_row_commute:
  "scan_row image_a image_b bounds x y identical = scan_row image_b image_a bounds x y identical"
proof (induction image_a image_b bounds x y identical rule: scan_row.induct)
  case (1 image_a image_b bounds x y identical)
  show ?case
    by (subst scan_row.simps, subst (2) scan_row.simps) (use 1 in \<open>auto simp: neq_commute\<close>)
qed

lemma scan_rows_commute:
  "scan_rows image_a image_b bounds y identical = scan_rows image_b image_a bounds y identical"
proof (induction image_a image_b bounds y identical rule: scan_rows.induct)
  case (1 image_a image_b bounds y identical)
  show ?case
  proof (cases "y < Y (Max_pt bounds)")
    case False
    then show ?thesis
      by (simp add: scan_rows.simps [of image_a image_b] scan_rows.simps [of image_b image_a])
  next
    case True
    obtain y' identical' where r:
      "scan_row image_a image_b bounds (X (Min_pt bounds)) y identical = (y', identical')"
      by (cases "scan_row image_a image_b bounds (X (Min_pt bounds)) y identical")
    then have r': "scan_row image_b image_a bounds (X (Min_pt bounds)) y identical = (y', identical')"
      by (simp add: scan_row_commute [of image_b image_a])
    from 1 [OF True r [symmetric]] True r r' show ?thesis
      by (simp add: scan_rows.simps [of image_a image_b _ y] scan_rows.simps [of image_b image_a _ y])
  qed
qed

lemma convert_pixel_swap:
  assumes "convert_pixel image_a image_b w gamma luminance y x s = Inr s'"
  shows "convert_pixel image_b image_a w gamma luminance y x (swap_buffers s) = Inr (swap_buffers s')"
  using assms
  by (auto simp: convert_pixel_def swap_buffers_def and_then_Inr_iff Let_def split: prod.splits)


lemma convert_swap:
  assumes "convert image_a image_b bounds w dim_px gamma luminance = Inr bufs"
  shows "convert image_b image_a bounds w dim_px gamma luminance = Inr (swap_buffers bufs)"
proof -
  have row: "for_each xs (convert_pixel image_a image_b w gamma luminance y) s = Inr s'
      \<Longrightarrow> for_each xs (convert_pixel image_b image_a w gamma luminance y) (swap_buffers s)
            = Inr (swap_buffers s')" for xs y s s'
    by (rule for_each_related) (rule convert_pixel_swap)
  have "for_each ys (\<lambda>y. for_each xs (convert_pixel image_a image_b w gamma luminance y)) s = Inr s'
      \<Longrightarrow> for_each ys (\<lambda>y. for_each xs (convert_pixel image_b image_a w gamma luminance y))
            (swap_buffers s) = Inr (swap_buffers s')" for xs ys s s'
    by (rule for_each_related) (rule row)
  from this [OF assms [unfolded convert_def]] show ?thesis
    by (simp add: convert_def swap_buffers_def)
qed

lemma fuse_level_swap:
  assumes "fuse_level la lb cpd f_freq adapt x y i st = Inr st'"
  shows "fuse_level lb la cpd f_freq adapt x y i st = Inr st'"
  using assms
  by (cases st) (auto simp: fuse_level_def and_then_Inr_iff Let_def max.commute)


lemma fuse_factor_swap:
  assumes "fuse_factor la lb cpd f_freq adapt x y = Inr factor"
  shows "fuse_factor lb la cpd f_freq adapt x y = Inr factor"
proof -
  have loop: "for_each xs (fuse_level la lb cpd f_freq adapt x y) st = Inr st'
      \<Longrightarrow> for_each xs (fuse_level lb la cpd f_freq adapt x y) st = Inr st'" for xs st st'
    by (rule for_each_related [where \<phi> = "\<lambda>s. s"]) (rule fuse_level_swap)
  from assms obtain st' where st': "for_each (counting 0 (MAX_PYR_LEVELS - 2))
      (fuse_level la lb cpd f_freq adapt x y) (0, 0) = Inr st'"
    unfolding fuse_factor_def and_then_Inr_iff by blast
  from assms st' loop [OF st'] show ?thesis
    by (simp add: fuse_factor_def and_then_def)
qed

lemma square_diff_commute: "(b - a) * (b - a) = (a - b) * (a - b)" for a b :: real
  by (simp add: algebra_simps)

lemma fuse_delta_e_swap:
  assumes "fuse_delta_e args bufs adapt index = Inr delta_e"
  shows "fuse_delta_e args (swap_buffers bufs) adapt index = Inr delta_e"
proof -
  from assms obtain aa ba ab bb where r:
    "index_at In_YeeCompare (a_a bufs) index = Inr aa"
    "index_at In_YeeCompare (b_a bufs) index = Inr ba"
    "index_at In_YeeCompare (a_b bufs) index = Inr ab"
    "index_at In_YeeCompare (b_b bufs) index = Inr bb"
    unfolding fuse_delta_e_def Let_def and_then_Inr_iff by blast
  with assms have "delta_e = ((aa - ba) * (aa - ba) + (ab - bb) * (ab - bb))
      * (if adapt < 10.0 then 0.0 else ColorFactor args)"
    by (auto simp: fuse_delta_e_def and_then_def Let_def)
  with r show ?thesis
    by (simp add: fuse_delta_e_def swap_buffers_def and_then_def
        square_diff_commute [of ba aa] square_diff_commute [of bb ab])
qed

lemma fuse_pixel_swap:
  assumes "fuse_pixel args la lb bufs cpd f_freq al w y x s = Inr s'"
  shows "fuse_pixel args lb la (swap_buffers bufs) cpd f_freq al w y x s = Inr s'"
proof -
  from assms obtain u v where uv: "get_value la x y al = Inr u" "get_value lb x y al = Inr v"
    unfolding fuse_pixel_def Let_def and_then_Inr_iff by blast
  define adapt where "adapt = max ((u + v) * 0.5) 0.00001"
  have adapt': "max ((v + u) * 0.5) 0.00001 = adapt"
    by (simp add: adapt_def add.commute)
  from assms uv obtain factor p q where
    f: "fuse_factor la lb cpd f_freq adapt x y = Inr factor"
    and pq: "get_value la x y 0 = Inr p" "get_value lb x y 0 = Inr q"
    unfolding fuse_pixel_def Let_def and_then_Inr_iff adapt_def by auto
  note f' = fuse_factor_swap [OF f]
  show ?thesis
  proof (cases "LuminanceOnly args")
    case True
    with assms uv f pq have "s' = fuse_mark x y (if \<bar>p - q\<bar> > factor * tvi adapt then False else True)
        (s\<lparr>error_sum := error_sum s + \<bar>p - q\<bar>\<rparr>)"
      by (auto simp: fuse_pixel_def and_then_def Let_def adapt_def)
    with True uv f' pq adapt' show ?thesis
      by (auto simp: fuse_pixel_def and_then_def Let_def abs_minus_commute [of q p])
  next
    case False
    with assms uv f pq obtain delta_e where
      d: "fuse_delta_e args bufs adapt (y * w + x) = Inr delta_e"
      by (auto simp: fuse_pixel_def and_then_def Let_def adapt_def split: sum.splits)
    note d' = fuse_delta_e_swap [OF d]
    from False assms uv f pq d have "s' = fuse_mark x y
        (if delta_e > factor then False
         else (if \<bar>p - q\<bar> > factor * tvi adapt then False else True))
        (s\<lparr>error_sum := error_sum s + \<bar>p - q\<bar> + delta_e\<rparr>)"
      by (auto simp: fuse_pixel_def and_then_def Let_def adapt_def)
    with False uv f' pq d' adapt' show ?thesis
      by (auto simp: fuse_pixel_def and_then_def Let_def abs_minus_commute [of q p])
  qed
qed

lemma compare_pixels_swap:
  assumes "compare_pixels image_a image_b args bounds w h = Inr res"
    and "Bounds image_a = Bounds image_b"
  shows "compare_pixels image_b image_a args bounds w h = Inr res"
proof -
  define cpd where "cpd = cpd_table (real_of_int w
      / to_degrees (2 * tan (FieldOfView args * to_radians 0.5)))"
  define al where "al = adaptation (to_degrees (2 * tan (FieldOfView args * to_radians 0.5)))"
  define s0 where "s0 = \<lparr>pixels_failed = 0, error_sum = 0, diffImg = NewRGBA (Bounds image_a)\<rparr>"
  from assms(1) obtain bufs la lb s where
    conv: "convert image_a image_b bounds w (w * h) (Gamma args) (Luminance args) = Inr bufs"
    and la: "newPyramid (a_lum bufs) w h = Inr la"
    and lb: "newPyramid (b_lum bufs) w h = Inr lb"
    and loop: "for_each (counting 0 h) (\<lambda>y. for_each (counting 0 w)
                 (fuse_pixel args la lb bufs cpd (f_freq_table cpd) al w y)) s0 = Inr s"
    unfolding compare_pixels_def Let_def and_then_Inr_iff cpd_def al_def s0_def by blast
  have row: "for_each xs (fuse_pixel args la lb bufs cpd (f_freq_table cpd) al w y) t = Inr t'
      \<Longrightarrow> for_each xs (fuse_pixel args lb la (swap_buffers bufs) cpd (f_freq_table cpd) al w y) t
            = Inr t'" for xs y t t'
    by (rule for_each_related [where \<phi> = "\<lambda>s. s"]) (rule fuse_pixel_swap)
  have "for_each ys (\<lambda>y. for_each xs (fuse_pixel args la lb bufs cpd (f_freq_table cpd) al w y)) t
          = Inr t'
      \<Longrightarrow> for_each ys (\<lambda>y. for_each xs
              (fuse_pixel args lb la (swap_buffers bufs) cpd (f_freq_table cpd) al w y)) t
            = Inr t'" for xs ys t t'
    by (rule for_each_related [where \<phi> = "\<lambda>s. s"]) (rule row)
  from this [OF loop] have loop': "for_each (counting 0 h) (\<lambda>y. for_each (counting 0 w)
      (fuse_pixel args lb la (swap_buffers bufs) cpd (f_freq_table cpd) al w y)) s0 = Inr s" .
  have sw: "a_lum (swap_buffers bufs) = b_lum bufs" "b_lum (swap_buffers bufs) = a_lum bufs"
    by (simp_all add: swap_buffers_def)
  have "compare_pixels image_a image_b args bounds w h =
      Inr (pixels_failed s < ThresholdPixels args,
           \<lparr>Reason = (if pixels_failed s < ThresholdPixels args then ReasonIndistinguishable
                      else ReasonVisiblyDifferent),
            NumPixelsFailed = pixels_failed s, ErrorSum = error_sum s,
            ImageDifference = Some (diffImg s)\<rparr>)"
    using conv la lb loop
    by (simp add: compare_pixels_def Let_def and_then_def cpd_def al_def s0_def)
  moreover have "compare_pixels image_b image_a args bounds w h =
      Inr (pixels_failed s < ThresholdPixels args,
           \<lparr>Reason = (if pixels_failed s < ThresholdPixels args then ReasonIndistinguishable
                      else ReasonVisiblyDifferent),
            NumPixelsFailed = pixels_failed s, ErrorSum = error_sum s,
            ImageDifference = Some (diffImg s)\<rparr>)"
    using convert_swap [OF conv] la lb loop' sw assms(2)
    by (simp add: compare_pixels_def Let_def and_then_def cpd_def al_def s0_def)
  ultimately show ?thesis using assms(1) by simp
qed

lemma convert_pixel_dark_dark:
  assumes "At image_a x y = (0, 0, 0, alpha)" "At image_b x y = (0, 0, 0, beta)" "g \<noteq> 0"
  shows "convert_pixel image_a image_b w g lum y x s =
     and_then (store_at In_YeeCompare (a_a s) (x + y * w) 0) (\<lambda>a_a'.
     and_then (store_at In_YeeCompare (a_b s) (x + y * w) 0) (\<lambda>a_b'.
     and_then (store_at In_YeeCompare (b_a s) (x + y * w) 0) (\<lambda>b_a'.
     and_then (store_at In_YeeCompare (b_b s) (x + y * w) 0) (\<lambda>b_b'.
     and_then (store_at In_YeeCompare (a_lum s) (x + y * w) 0) (\<lambda>a_lum'.
     and_then (store_at In_YeeCompare (b_lum s) (x + y * w) 0) (\<lambda>b_lum'.
     Inr \<lparr>a_lum = a_lum', b_lum = b_lum', a_a = a_a', b_a = b_a',
          a_b = a_b', b_b = b_b'\<rparr>))))))"
  using assms
  by (simp add: convert_pixel_def pixel_xyz_dark xyz_to_lab_def white_def
      adobe_rgb_to_xyz_def lab_f_def Let_def)

lemma convert_white_shifted:
  "convert white_2x2 black_2x2_shifted (rect 0 0 2 2) 2 4 2.2 100 =
     Inr \<lparr>a_lum = replicate 4 100.00007, b_lum = replicate 4 0,
          a_a = replicate 4 0, b_a = replicate 4 0, a_b = replicate 4 0, b_b = replicate 4 0\<rparr>"
proof -
  have px: "convert_pixel white_2x2 black_2x2_shifted w g lum y x s =
     and_then (store_at In_YeeCompare (a_a s) (x + y * w) 0) (\<lambda>a_a'.
     and_then (store_at In_YeeCompare (a_b s) (x + y * w) 0) (\<lambda>a_b'.
     and_then (store_at In_YeeCompare (b_a s) (x + y * w) 0) (\<lambda>b_a'.
     and_then (store_at In_YeeCompare (b_b s) (x + y * w) 0) (\<lambda>b_b'.
     and_then (store_at In_YeeCompare (a_lum s) (x + y * w) (1.0000007 * lum)) (\<lambda>a_lum'.
     and_then (store_at In_YeeCompare (b_lum s) (x + y * w) 0) (\<lambda>b_lum'.
     Inr \<lparr>a_lum = a_lum', b_lum = b_lum', a_a = a_a', b_a = b_a',
          a_b = a_b', b_b = b_b'\<rparr>))))))"
    if "0 \<le> x" "x < 2" "0 \<le> y" "y < 2" "g \<noteq> 0" for x y s w g lum
    using that
    by (intro convert_pixel_white_dark [where alpha = 0])
       (simp_all add: white_2x2_def black_2x2_shifted_def At_uniform point_in_def rect_def)
  show ?thesis
    by (simp add: convert_def rect_def counting_2 px store_at_def and_then_def replicate_4)
qed

lemma counting_shifted: "counting (- 2) 0 = [- 2, - 1]" "counting 1 3 = [1, 2]"
  by (simp_all add: counting_rec)

lemma convert_shifted_white:
  "convert black_2x2_shifted white_2x2 (rect (- 2) 1 0 3) 2 4 2.2 100 =
     Inr \<lparr>a_lum = replicate 4 0, b_lum = replicate 4 0,
          a_a = replicate 4 0, b_a = replicate 4 0, a_b = replicate 4 0, b_b = replicate 4 0\<rparr>"
proof -
  have px: "convert_pixel black_2x2_shifted white_2x2 w g lum y x s =
     and_then (store_at In_YeeCompare (a_a s) (x + y * w) 0) (\<lambda>a_a'.
     and_then (store_at In_YeeCompare (a_b s) (x + y * w) 0) (\<lambda>a_b'.
     and_then (store_at In_YeeCompare (b_a s) (x + y * w) 0) (\<lambda>b_a'.
     and_then (store_at In_YeeCompare (b_b s) (x + y * w) 0) (\<lambda>b_b'.
     and_then (store_at In_YeeCompare (a_lum s) (x + y * w) 0) (\<lambda>a_lum'.
     and_then (store_at In_YeeCompare (b_lum s) (x + y * w) 0) (\<lambda>b_lum'.
     Inr \<lparr>a_lum = a_lum', b_lum = b_lum', a_a = a_a', b_a = b_a',
          a_b = a_b', b_b = b_b'\<rparr>))))))"
    if "- 2 \<le> x" "x < 0" "1 \<le> y" "y < 3" "g \<noteq> 0" for x y s w g lum
    using that
    by (intro convert_pixel_dark_dark [where alpha = 65535 and beta = 0])
       (simp_all add: white_2x2_def black_2x2_shifted_def At_uniform point_in_def rect_def
          opaque_black_def)
  show ?thesis
    by (simp add: convert_def rect_def counting_shifted px store_at_def and_then_def replicate_4)
qed

lemma failed_white_shifted:
  "failed_count (YeeCompare white_2x2 black_2x2_shifted DefaultParameters) = Inr 4"
proof -
  have scan: "scan_rows white_2x2 black_2x2_shifted (rect 0 0 2 2) 0 True = False"
    by (simp add: scan_rows.simps scan_row.simps rect_def white_2x2_def black_2x2_shifted_def
        At_uniform point_in_def opaque_white_def)
  have conv: "convert white_2x2 black_2x2_shifted (rect 0 0 2 2) 2 4 (Gamma DefaultParameters)
                (Luminance DefaultParameters)
              = Inr \<lparr>a_lum = replicate 4 100.00007, b_lum = replicate 4 0,
                     a_a = replicate 4 0, b_a = replicate 4 0,
                     a_b = replicate 4 0, b_b = replicate 4 0\<rparr>"
    using convert_white_shifted by (simp add: DefaultParameters_def)
  have "tvi 50.000035 < 100"
    by (rule tvi_less_100) simp_all
  then have "\<bar>100.00007 - 0\<bar> > tvi (max ((100.00007 + 0) * 0.5) 0.00001)"
    by simp
  with compare_pixels_const_2x2 [OF conv, where ca = "100.00007" and cb = 0]
  have "failed_count (compare_pixels white_2x2 black_2x2_shifted DefaultParameters
          (rect 0 0 2 2) 2 2) = Inr 4"
    by simp
  moreover have "YeeCompare white_2x2 black_2x2_shifted DefaultParameters
          = compare_pixels white_2x2 black_2x2_shifted DefaultParameters (rect 0 0 2 2) 2 2"
    using scan
    by (simp add: YeeCompare_def Let_def white_2x2_def black_2x2_shifted_def uniform_image_def
        Size_def rect_def)
  ultimately show ?thesis by simp
qed

lemma failed_shifted_white:
  "failed_count (YeeCompare black_2x2_shifted white_2x2 DefaultParameters) = Inr 0"
proof -
  have scan: "scan_rows black_2x2_shifted white_2x2 (rect (- 2) 1 0 3) 1 True = False"
    by (simp add: scan_rows.simps scan_row.simps rect_def white_2x2_def black_2x2_shifted_def
        At_uniform point_in_def opaque_black_def)
  have conv: "convert black_2x2_shifted white_2x2 (rect (- 2) 1 0 3) 2 4 (Gamma DefaultParameters)
                (Luminance DefaultParameters)
              = Inr \<lparr>a_lum = replicate 4 0, b_lum = replicate 4 0,
                     a_a = replicate 4 0, b_a = replicate 4 0,
                     a_b = replicate 4 0, b_b = replicate 4 0\<rparr>"
    using convert_shifted_white by (simp add: DefaultParameters_def)
  have "\<not> \<bar>0 - 0\<bar> > tvi (max ((0 + 0) * 0.5) 0.00001)"
    using tvi_pos [of "max ((0 + 0) * 0.5) 0.00001"] by simp
  with compare_pixels_const_2x2 [OF conv, where ca = 0 and cb = 0]
  have "failed_count (compare_pixels black_2x2_shifted white_2x2 DefaultParameters
          (rect (- 2) 1 0 3) 2 2) = Inr 0"
    by simp
  moreover have "YeeCompare black_2x2_shifted white_2x2 DefaultParameters
          = compare_pixels black_2x2_shifted white_2x2 DefaultParameters (rect (- 2) 1 0 3) 2 2"
    using scan
    by (simp add: YeeCompare_def Let_def white_2x2_def black_2x2_shifted_def uniform_image_def
        Size_def rect_def)
  ultimately show ?thesis by simp
qed

text \<open>
  The scan, the conversion and the test of each pixel are symmetric under the
  exchange of the two images: for two images with the same bounds, whenever
  \<open>YeeCompare\<close> returns on \<open>(A, B)\<close> it returns on \<open>(B, A)\<close> with the same
  \<open>NumPixelsFailed\<close>.
\<close>

lemma symmetric_same_bounds:
  assumes "Bounds image_a = Bounds image_b"
    and "YeeCompare image_a image_b args = Inr (identical_ab, result_ab)"
  shows "\<exists>identical_ba result_ba.
           YeeCompare image_b image_a args = Inr (identical_ba, result_ba)
           \<and> NumPixelsFailed result_ba = NumPixelsFailed result_ab"
proof (cases "scan_rows image_a image_b (Bounds image_a) (Y (Min_pt (Bounds image_a))) True")
  case True
  with assms show ?thesis
    by (auto simp: YeeCompare_def Let_def scan_rows_commute [of image_b image_a])
next
  case False
  with assms have "compare_pixels image_a image_b args (Bounds image_a)
      (X (Size (Bounds image_a))) (Y (Size (Bounds image_a))) = Inr (identical_ab, result_ab)"
    by (simp add: YeeCompare_def Let_def)
  from compare_pixels_swap [OF this assms(1)] False assms(1) show ?thesis
    by (simp add: YeeCompare_def Let_def scan_rows_commute [of image_b image_a])
qed

lemma symmetric_same_bounds_example:
  "Bounds white_2x2 = Bounds black_2x2
   \<and> failed_count (YeeCompare white_2x2 black_2x2 DefaultParameters) = Inr 4
   \<and> failed_count (YeeCompare black_2x2 white_2x2 DefaultParameters) = Inr 4"
proof -
  have b: "Bounds white_2x2 = Bounds black_2x2"
    by (simp add: white_2x2_def black_2x2_def uniform_image_def)
  have f: "failed_count (YeeCompare white_2x2 black_2x2 DefaultParameters) = Inr 4"
    by (rule failed_white_black_args) (simp_all add: DefaultParameters_def)
  then obtain i r where ab: "YeeCompare white_2x2 black_2x2 DefaultParameters = Inr (i, r)"
    and r: "NumPixelsFailed r = 4"
    by (cases "YeeCompare white_2x2 black_2x2 DefaultParameters") (auto simp: failed_count_def)
  from symmetric_same_bounds [OF b ab] r b f show ?thesis
    by (auto simp: failed_count_def)
qed


text \<open>
  \<open>YeeCompare\<close> compares the sizes of the two images, not their bounds, and then
  addresses everything by the coordinates of \<open>image_a.Bounds()\<close>: \<open>image_b\<close> is read
  at these coordinates, and the buffers are indexed by the absolute \<open>x + y * w\<close>.
  Two images with the same bounds that start at \<open>(1, 1)\<close> make the conversion panic.
\<close>

lemma same_bounds_off_origin_panics:
  "Bounds white_2x2_at_1_1 = Bounds black_2x2_at_1_1
   \<and> YeeCompare white_2x2_at_1_1 black_2x2_at_1_1 DefaultParameters
       = Inl (IndexOutOfRange In_YeeCompare)"
proof
  show "Bounds white_2x2_at_1_1 = Bounds black_2x2_at_1_1"
    by (simp add: white_2x2_at_1_1_def black_2x2_at_1_1_def uniform_image_def)
  have scan: "scan_rows white_2x2_at_1_1 black_2x2_at_1_1 (rect 1 1 3 3) 1 True = False"
    by (simp add: scan_rows.simps scan_row.simps rect_def white_2x2_at_1_1_def
        black_2x2_at_1_1_def At_uniform point_in_def opaque_white_def opaque_black_def)
  have px: "convert_pixel white_2x2_at_1_1 black_2x2_at_1_1 w g lum y x s =
     and_then (store_at In_YeeCompare (a_a s) (x + y * w) 0) (\<lambda>a_a'.
     and_then (store_at In_YeeCompare (a_b s) (x + y * w) 0) (\<lambda>a_b'.
     and_then (store_at In_YeeCompare (b_a s) (x + y * w) 0) (\<lambda>b_a'.
     and_then (store_at In_YeeCompare (b_b s) (x + y * w) 0) (\<lambda>b_b'.
     and_then (store_at In_YeeCompare (a_lum s) (x + y * w) (1.0000007 * lum)) (\<lambda>a_lum'.
     and_then (store_at In_YeeCompare (b_lum s) (x + y * w) 0) (\<lambda>b_lum'.
     Inr \<lparr>a_lum = a_lum', b_lum = b_lum', a_a = a_a', b_a = b_a',
          a_b = a_b', b_b = b_b'\<rparr>))))))"
    if "1 \<le> x" "x < 3" "1 \<le> y" "y < 3" "g \<noteq> 0" for x y s w g lum
    using that
    by (intro convert_pixel_white_dark [where alpha = 65535])
       (simp_all add: white_2x2_at_1_1_def black_2x2_at_1_1_def At_uniform point_in_def rect_def
          opaque_black_def)
  have conv: "convert white_2x2_at_1_1 black_2x2_at_1_1 (rect 1 1 3 3) 2 4
                (Gamma DefaultParameters) (Luminance DefaultParameters)
              = Inl (IndexOutOfRange In_YeeCompare)"
    by (simp add: convert_def rect_def counting_shifted px store_at_def and_then_def replicate_4
        DefaultParameters_def)
  have "YeeCompare white_2x2_at_1_1 black_2x2_at_1_1 DefaultParameters
          = compare_pixels white_2x2_at_1_1 black_2x2_at_1_1 DefaultParameters (rect 1 1 3 3) 2 2"
    using scan
    by (simp add: YeeCompare_def Let_def white_2x2_at_1_1_def black_2x2_at_1_1_def
        uniform_image_def Size_def rect_def)
  also have "\<dots> = Inl (IndexOutOfRange In_YeeCompare)"
    using conv by (simp add: compare_pixels_def and_then_def Let_def)
  finally show "YeeCompare white_2x2_at_1_1 black_2x2_at_1_1 DefaultParameters
       = Inl (IndexOutOfRange In_YeeCompare)" .
qed

text \<open>
  C4 at a failing input. A 2 by 2 white image with bounds from \<open>(0, 0)\<close> and a 2 by 2
  black image with bounds from \<open>(-2, 1)\<close> have the same size, and both calls
  return; yet the count of failed pixels is 4 in one order and 0 in the other:
  each call compares its first image with the zero colour that the second one
  answers outside its own bounds. The symmetry that the claim states does not hold
  of the code.
\<close>

theorem exchange_shifted_bounds:
  "Size (Bounds white_2x2) = Size (Bounds black_2x2_shifted)
   \<and> failed_count (YeeCompare white_2x2 black_2x2_shifted DefaultParameters) = Inr 4
   \<and> failed_count (YeeCompare black_2x2_shifted white_2x2 DefaultParameters) = Inr 0"
proof (intro conjI)
  show "Size (Bounds white_2x2) = Size (Bounds black_2x2_shifted)"
    by (simp add: white_2x2_def black_2x2_shifted_def uniform_image_def rect_def Size_def)
  show "failed_count (YeeCompare white_2x2 black_2x2_shifted DefaultParameters) = Inr 4"
    by (rule failed_white_shifted)
  show "failed_count (YeeCompare black_2x2_shifted white_2x2 DefaultParameters) = Inr 0"
    by (rule failed_shifted_white)
qed


section \<open>A buffer one pixel wide\<close>

lemma convolve_pixel_width_1:
  "convolve_pixel \<lparr>width = 1, height = 2, levels = lv\<rparr> [c, c] 0 0 = Inl (IndexOutOfRange In_convolve)"
  by (simp add: convolve_pixel_def counting_5 convolve_tap_def abs_int_def index_at_def
      kernel_def and_then_def Let_def)

text \<open>
  C6 at a failing input. For the uniform buffer \<open>[c, c]\<close> of width 1 and height 2,
  \<open>newPyramid\<close> does not return a pyramid: the first convolution reflects the
  offset \<open>x - 2 = -2\<close> to \<open>nx = 2\<close>, then to \<open>2 * 1 - 2 - 1 = -1\<close>, and \<open>b[ny*1 + nx]\<close>
  with \<open>ny = 0\<close> is an index out of range. (For \<open>w \<ge> 2\<close> and \<open>h \<ge> 2\<close>, and for
  \<open>w * h \<le> 1\<close>, every level is the constant buffer: \<open>newPyramid_const\<close>,
  \<open>newPyramid_degenerate\<close>.)
\<close>

theorem pyramid_width_1_panics:
  "newPyramid [c, c] 1 2 = Inl (IndexOutOfRange In_convolve)"
  by (simp add: newPyramid_def counting_8 empty_levels newPyramid_level_def convolve_def
      counting_rec [of 0 2] counting_rec [of 1 2] counting_rec [of 0 1] counting_rec [of 1 1]
      convolve_at_def convolve_pixel_width_1 and_then_def)

section \<open>The accessor stays in range\<close>

lemma counting_bounds: "i \<in> set (counting lo hi) \<Longrightarrow> lo \<le> i \<and> i < hi"
  by (auto simp: counting_def)

lemma for_each_Inl:
  "for_each xs body s = Inl e \<Longrightarrow> \<exists>x \<in> set xs. \<exists>s0. body x s0 = Inl e"
proof (induction xs arbitrary: s)
  case Nil
  then show ?case by simp
next
  case (Cons x xs)
  show ?case
  proof (cases "body x s")
    case (Inl e')
    with Cons.prems show ?thesis by auto
  next
    case (Inr s1)
    with Cons.prems have "for_each xs body s1 = Inl e" by simp
    from Cons.IH [OF this] show ?thesis by auto
  qed
qed

lemma for_each_preserves:
  assumes "for_each xs body s = Inr s'" and "P s"
    and "\<And>x s s'. P s \<Longrightarrow> body x s = Inr s' \<Longrightarrow> P s'"
  shows "P s'"
  using assms(1,2)
proof (induction xs arbitrary: s)
  case Nil
  then show ?case by simp
next
  case (Cons x xs)
  then obtain s1 where s1: "body x s = Inr s1" "for_each xs body s1 = Inr s'"
    by (auto split: sum.splits)
  from assms(3) [OF Cons.prems(2) s1(1)] have "P s1" .
  from Cons.IH [OF s1(2) this] show ?case .
qed

subsection \<open>Where a panic can come from\<close>

lemma convert_pixel_Inl:
  "convert_pixel image_a image_b w gamma luminance y x s = Inl e \<Longrightarrow> e = IndexOutOfRange In_YeeCompare"
  by (auto simp: convert_pixel_def store_at_def and_then_def Let_def
      split: prod.splits sum.splits if_splits)

lemma convert_Inl:
  assumes "convert image_a image_b bounds w dim_px gamma luminance = Inl e"
  shows "e = IndexOutOfRange In_YeeCompare"
proof -
  from assms obtain y s0 where
    "for_each (counting (X (Min_pt bounds)) (X (Max_pt bounds)))
       (convert_pixel image_a image_b w gamma luminance y) s0 = Inl e"
    unfolding convert_def by (blast dest: for_each_Inl)
  then obtain x s1 where "convert_pixel image_a image_b w gamma luminance y x s1 = Inl e"
    by (blast dest: for_each_Inl)
  then show ?thesis by (rule convert_pixel_Inl)
qed

lemma convolve_tap_Inl:
  "convolve_tap l b x y i j r = Inl e \<Longrightarrow> e = IndexOutOfRange In_convolve"
  by (auto simp: convolve_tap_def index_at_def and_then_def Let_def split: sum.splits if_splits)

lemma convolve_pixel_Inl:
  assumes "convolve_pixel l b x y = Inl e"
  shows "e = IndexOutOfRange In_convolve"
proof -
  from assms obtain i r0 where
    "for_each (counting (- 2) 3) (\<lambda>j. convolve_tap l b x y i j) r0 = Inl e"
    unfolding convolve_pixel_def by (blast dest: for_each_Inl)
  then obtain j r1 where "convolve_tap l b x y i j r1 = Inl e"
    by (blast dest: for_each_Inl)
  then show ?thesis by (rule convolve_tap_Inl)
qed

lemma convolve_at_Inl:
  "convolve_at l b y x a = Inl e \<Longrightarrow> e = IndexOutOfRange In_convolve"
  by (auto simp: convolve_at_def store_at_def and_then_def Let_def
      dest: convolve_pixel_Inl split: sum.splits if_splits)

lemma convolve_Inl:
  assumes "convolve l a b = Inl e"
  shows "e \<noteq> IndexOutOfRange In_get_value"
proof (cases "length a = 0 \<or> length b = 0")
  case True
  with assms show ?thesis by (auto simp: convolve_def)
next
  case False
  with assms obtain y a0 where
    "for_each (counting 0 (width l)) (\<lambda>x. convolve_at l b y x) a0 = Inl e"
    unfolding convolve_def by (auto dest: for_each_Inl)
  then obtain x a1 where "convolve_at l b y x a1 = Inl e"
    by (blast dest: for_each_Inl)
  then show ?thesis by (auto dest: convolve_at_Inl)
qed

lemma newPyramid_Inl:
  assumes "newPyramid img w h = Inl e"
  shows "e \<noteq> IndexOutOfRange In_get_value"
proof -
  from assms obtain i l where "newPyramid_level img w h i l = Inl e"
    unfolding newPyramid_def by (blast dest: for_each_Inl)
  then show ?thesis
    by (auto simp: newPyramid_level_def and_then_def dest: convolve_Inl split: if_splits sum.splits)
qed

lemma for_each_succeeds:
  assumes "\<And>x s. x \<in> set xs \<Longrightarrow> \<exists>s'. body x s = Inr s'"
  shows "\<exists>s'. for_each xs body s = Inr s'"
  using assms
proof (induction xs arbitrary: s)
  case Nil
  then show ?case by simp
next
  case (Cons x xs)
  from Cons.prems [of x s] obtain s1 where s1: "body x s = Inr s1" by auto
  from Cons.IH [of s1] Cons.prems obtain s' where "for_each xs body s1 = Inr s'" by auto
  with s1 show ?case by simp
qed

lemma for_each_counting_preserves_from:
  assumes step: "\<And>i s s'. lo0 \<le> i \<Longrightarrow> i < hi \<Longrightarrow> P i s \<Longrightarrow> body i s = Inr s' \<Longrightarrow> P (i + 1) s'"
  shows "for_each (counting lo hi) body s = Inr s' \<Longrightarrow> lo0 \<le> lo \<Longrightarrow> lo \<le> hi \<Longrightarrow> P lo s
         \<Longrightarrow> P hi s'"
proof (induction "nat (hi - lo)" arbitrary: lo s)
  case 0
  then have "lo = hi" by simp
  with 0 show ?case by simp
next
  case (Suc n)
  then have lt: "lo < hi" by simp
  with Suc.prems(1) obtain s1 where s1: "body lo s = Inr s1"
    "for_each (counting (lo + 1) hi) body s1 = Inr s'"
    by (subst (asm) counting_rec) (auto split: sum.splits)
  from step [OF Suc.prems(2) lt Suc.prems(4) s1(1)] have p: "P (lo + 1) s1" .
  have "n = nat (hi - (lo + 1))" using Suc.hyps(2) by simp
  from Suc.hyps(1) [OF this s1(2) _ _ p] Suc.prems(2) lt show ?case by simp
qed

lemma store_at_length: "store_at st xs i v = Inr ys \<Longrightarrow> length ys = length xs"
  by (auto simp: store_at_def split: if_splits)

lemma convert_pixel_lengths:
  assumes "convert_pixel image_a image_b w gamma luminance y x s = Inr s'"
  shows "length (a_lum s') = length (a_lum s) \<and> length (b_lum s') = length (b_lum s)"
proof -
  obtain a_x a_y a_z where a: "pixel_xyz (At image_a x y) gamma = (a_x, a_y, a_z)"
    by (cases "pixel_xyz (At image_a x y) gamma")
  obtain a_l a_lab_a a_lab_b where al: "xyz_to_lab a_x a_y a_z = (a_l, a_lab_a, a_lab_b)"
    by (cases "xyz_to_lab a_x a_y a_z")
  obtain b_x b_y b_z where b: "pixel_xyz (At image_b x y) gamma = (b_x, b_y, b_z)"
    by (cases "pixel_xyz (At image_b x y) gamma")
  obtain b_l b_lab_a b_lab_b where bl: "xyz_to_lab b_x b_y b_z = (b_l, b_lab_a, b_lab_b)"
    by (cases "xyz_to_lab b_x b_y b_z")
  from assms show ?thesis
    by (auto simp: convert_pixel_def a al b bl and_then_Inr_iff Let_def dest: store_at_length)
qed

lemma convert_lengths:
  assumes "convert image_a image_b bounds w dim_px gamma luminance = Inr bufs"
  shows "length (a_lum bufs) = nat dim_px \<and> length (b_lum bufs) = nat dim_px"
proof -
  let ?P = "\<lambda>s. length (a_lum s) = nat dim_px \<and> length (b_lum s) = nat dim_px"
  have row: "for_each xs (convert_pixel image_a image_b w gamma luminance y) s = Inr s'
      \<Longrightarrow> ?P s \<Longrightarrow> ?P s'" for xs y s s'
    by (erule for_each_preserves [where P = ?P], assumption)
       (use convert_pixel_lengths in fastforce)
  show ?thesis
    by (rule for_each_preserves [where P = ?P, OF assms [unfolded convert_def]])
       (simp_all add: row)
qed

lemma convolve_length:
  assumes "convolve l a b = Inr a'"
  shows "length a' = length a"
proof -
  let ?P = "\<lambda>s. length s = length a"
  have at: "convolve_at l b y x s = Inr s' \<Longrightarrow> ?P s \<Longrightarrow> ?P s'" for y x s s'
    by (auto simp: convolve_at_def and_then_Inr_iff dest: store_at_length)
  have row: "for_each xs (\<lambda>x. convolve_at l b y x) s = Inr s' \<Longrightarrow> ?P s \<Longrightarrow> ?P s'"
    for xs y s s'
    by (erule for_each_preserves [where P = ?P], assumption) (rule at)
  from assms have "for_each (counting 0 (height l))
      (\<lambda>y. for_each (counting 0 (width l)) (\<lambda>x. convolve_at l b y x)) a = Inr a'"
    by (auto simp: convolve_def split: if_splits)
  then show ?thesis
    by (rule for_each_preserves [where P = ?P]) (simp_all add: row)
qed

lemma newPyramid_level_shape:
  assumes "newPyramid_level img w h i l = Inr l'"
    and "width l = w" "height l = h" "length img = nat (w * h)"
  shows "\<exists>a. length a = nat (w * h) \<and> l' = l\<lparr>levels := (levels l)[nat i := a]\<rparr>"
proof (cases "i = 0 \<or> w * h \<le> 1")
  case True
  with assms show ?thesis
    by (auto simp: newPyramid_level_def)
next
  case False
  with assms(1) obtain a where
    a: "convolve l (replicate (nat (width l * height l)) 0) (levels l ! nat (i - 1)) = Inr a"
    and l': "l' = l\<lparr>levels := (levels l)[nat i := a]\<rparr>"
    by (auto simp: newPyramid_level_def and_then_Inr_iff)
  from convolve_length [OF a] assms(2,3) have "length a = nat (w * h)" by simp
  with l' show ?thesis by blast
qed

lemma newPyramid_shape:
  assumes "newPyramid img w h = Inr l" and "length img = nat (w * h)"
  shows "well_shaped w h l"
proof -
  let ?P = "\<lambda>i l. width l = w \<and> height l = h \<and> length (levels l) = 8
               \<and> (\<forall>j. j < nat i \<longrightarrow> length (levels l ! j) = nat (w * h))"
  have "?P MAX_PYR_LEVELS l"
  proof (rule for_each_counting_preserves_from [where P = ?P and lo0 = 0,
        OF _ assms(1) [unfolded newPyramid_def]])
    show "(0::int) \<le> 0" by simp
    show "0 \<le> MAX_PYR_LEVELS" by (simp add: MAX_PYR_LEVELS_def)
    show "?P 0 \<lparr>width = w, height = h, levels = replicate (nat MAX_PYR_LEVELS) []\<rparr>"
      by (simp add: MAX_PYR_LEVELS_def)
  next
    fix i s s'
    assume i: "0 \<le> i" "i < MAX_PYR_LEVELS" and p: "?P i s"
      and step: "newPyramid_level img w h i s = Inr s'"
    from newPyramid_level_shape [OF step _ _ assms(2)] p obtain a where
      a: "length a = nat (w * h)" and s': "s' = s\<lparr>levels := (levels s)[nat i := a]\<rparr>"
      by auto
    have "length (levels s' ! j) = nat (w * h)" if "j < nat (i + 1)" for j
    proof (cases "j = nat i")
      case True
      with i p a s' show ?thesis by (simp add: MAX_PYR_LEVELS_def)
    next
      case False
      with that i have "j < nat i" by auto
      with p False s' show ?thesis by simp
    qed
    with p s' show "?P (i + 1) s'" by simp
  qed
  then have "\<forall>j < length (levels l). length (levels l ! j) = nat (w * h)"
    by (simp add: MAX_PYR_LEVELS_def)
  then have "list_all (\<lambda>lv. length lv = nat (w * h)) (levels l)"
    unfolding list_all_length .
  with \<open>?P MAX_PYR_LEVELS l\<close> show ?thesis
    by (simp add: well_shaped_def)
qed

lemma get_value_in_range:
  assumes "well_shaped w h l" "0 \<le> x" "x < w" "0 \<le> y" "y < h" "0 \<le> level" "level < 8"
  shows "\<exists>v. get_value l x y level = Inr v"
proof -
  have "0 \<le> y * w + x" "y * w + x < w * h"
    using index_in_grid [OF assms(2-5)] by auto
  then have idx: "0 \<le> x + y * w" "x + y * w < w * h"
    by (simp_all add: add.commute)
  from assms(1,6,7) have "length (levels l ! nat level) = nat (w * h)"
    by (simp add: well_shaped_def list_all_length)
  with assms(1,6,7) idx show ?thesis
    by (simp add: get_value_def index_at_def and_then_def well_shaped_def)
qed

text \<open>On a pyramid of that shape the accessor returns exactly in the stated range.\<close>

lemma get_value_panics_iff:
  assumes "well_shaped w h l"
  shows "(\<exists>v. get_value l x y level = Inr v) \<longleftrightarrow>
         (0 \<le> level \<and> level < MAX_PYR_LEVELS \<and> 0 \<le> x + y * w \<and> x + y * w < w * h)"
proof (cases "0 \<le> level \<and> level < MAX_PYR_LEVELS")
  case False
  with assms show ?thesis
    by (auto simp: get_value_def index_at_def and_then_def well_shaped_def MAX_PYR_LEVELS_def)
next
  case True
  then have "nat level < 8" by (auto simp: MAX_PYR_LEVELS_def)
  with assms have "length (levels l ! nat level) = nat (w * h)"
    by (simp add: well_shaped_def list_all_length)
  with True assms show ?thesis
    by (auto simp: get_value_def index_at_def and_then_def well_shaped_def MAX_PYR_LEVELS_def
        Let_def split: if_splits)
qed


lemma fuse_level_in_range:
  assumes "well_shaped w h la" "well_shaped w h lb" "0 \<le> x" "x < w" "0 \<le> y" "y < h"
    and "0 \<le> i" "i < 6"
  shows "\<exists>st'. fuse_level la lb cpd f_freq adapt x y i st = Inr st'"
proof -
  obtain sum_contrast factor where st: "st = (sum_contrast, factor)" by (cases st)
  from assms obtain la0 la1 la2 lb0 lb1 lb2 where
    "get_value la x y i = Inr la0" "get_value la x y (i + 1) = Inr la1"
    "get_value la x y (i + 2) = Inr la2"
    "get_value lb x y i = Inr lb0" "get_value lb x y (i + 1) = Inr lb1"
    "get_value lb x y (i + 2) = Inr lb2"
    using get_value_in_range [OF assms(1) assms(3-6), of i]
      get_value_in_range [OF assms(1) assms(3-6), of "i + 1"]
      get_value_in_range [OF assms(1) assms(3-6), of "i + 2"]
      get_value_in_range [OF assms(2) assms(3-6), of i]
      get_value_in_range [OF assms(2) assms(3-6), of "i + 1"]
      get_value_in_range [OF assms(2) assms(3-6), of "i + 2"]
    by auto
  then show ?thesis
    by (simp add: fuse_level_def st and_then_def Let_def)
qed

lemma fuse_factor_in_range:
  assumes "well_shaped w h la" "well_shaped w h lb" "0 \<le> x" "x < w" "0 \<le> y" "y < h"
  shows "\<exists>factor. fuse_factor la lb cpd f_freq adapt x y = Inr factor"
proof -
  have "\<exists>st'. for_each (counting 0 (MAX_PYR_LEVELS - 2))
      (fuse_level la lb cpd f_freq adapt x y) (0, 0) = Inr st'"
  proof (rule for_each_succeeds)
    fix i st
    assume "i \<in> set (counting 0 (MAX_PYR_LEVELS - 2))"
    then have "0 \<le> i" "i < 6"
      by (auto dest: counting_bounds simp: MAX_PYR_LEVELS_def)
    with assms show "\<exists>st'. fuse_level la lb cpd f_freq adapt x y i st = Inr st'"
      by (intro fuse_level_in_range)
  qed
  then show ?thesis
    by (auto simp: fuse_factor_def and_then_def Let_def split: prod.splits)
qed

lemma fuse_delta_e_Inl:
  "fuse_delta_e args bufs adapt index = Inl e \<Longrightarrow> e = IndexOutOfRange In_YeeCompare"
  by (auto simp: fuse_delta_e_def index_at_def and_then_def Let_def split: sum.splits if_splits)

lemma fuse_pixel_Inl:
  assumes "well_shaped w h la" "well_shaped w h lb" "0 \<le> x" "x < w" "0 \<le> y" "y < h"
    and "0 \<le> al" "al < 8"
    and "fuse_pixel args la lb bufs cpd f_freq al w y x s = Inl e"
  shows "e = IndexOutOfRange In_YeeCompare"
proof -
  obtain u v p q where g: "get_value la x y al = Inr u" "get_value lb x y al = Inr v"
    "get_value la x y 0 = Inr p" "get_value lb x y 0 = Inr q"
    using get_value_in_range [OF assms(1) assms(3-6), of al]
      get_value_in_range [OF assms(2) assms(3-6), of al]
      get_value_in_range [OF assms(1) assms(3-6), of 0]
      get_value_in_range [OF assms(2) assms(3-6), of 0] assms(7,8)
    by auto
  obtain factor where f:
    "fuse_factor la lb cpd f_freq (max ((u + v) * 0.5) 0.00001) x y = Inr factor"
    using fuse_factor_in_range [OF assms(1-6)] by blast
  from assms(9) g f show ?thesis
    by (auto simp: fuse_pixel_def and_then_def Let_def dest: fuse_delta_e_Inl
        split: if_splits sum.splits)
qed

lemma compare_pixels_Inl:
  assumes "compare_pixels image_a image_b args bounds w h = Inl e"
  shows "e \<noteq> IndexOutOfRange In_get_value"
proof (cases "convert image_a image_b bounds w (w * h) (Gamma args) (Luminance args)")
  case (Inl e')
  with assms have "e = e'"
    by (simp add: compare_pixels_def and_then_def Let_def)
  with convert_Inl [OF Inl] show ?thesis by simp
next
  case (Inr bufs)
  note len = convert_lengths [OF Inr]
  define cpd where "cpd = cpd_table (real_of_int w
      / to_degrees (2 * tan (FieldOfView args * to_radians 0.5)))"
  define al where "al = adaptation (to_degrees (2 * tan (FieldOfView args * to_radians 0.5)))"
  have al: "0 \<le> al" "al < 8"
    using adaptation_range [of "to_degrees (2 * tan (FieldOfView args * to_radians 0.5))"]
    by (simp_all add: al_def)
  show ?thesis
  proof (cases "newPyramid (a_lum bufs) w h")
    case (Inl e')
    with assms Inr have "e = e'"
      by (simp add: compare_pixels_def and_then_def Let_def)
    with newPyramid_Inl [OF Inl] show ?thesis by simp
  next
    case la: (Inr la)
    show ?thesis
    proof (cases "newPyramid (b_lum bufs) w h")
      case (Inl e')
      with assms Inr la have "e = e'"
        by (simp add: compare_pixels_def and_then_def Let_def)
      with newPyramid_Inl [OF Inl] show ?thesis by simp
    next
      case lb: (Inr lb)
      have sa: "well_shaped w h la" using newPyramid_shape [OF la] len by simp
      have sb: "well_shaped w h lb" using newPyramid_shape [OF lb] len by simp
      from assms Inr la lb have "for_each (counting 0 h) (\<lambda>y. for_each (counting 0 w)
          (fuse_pixel args la lb bufs cpd (f_freq_table cpd) al w y))
          \<lparr>pixels_failed = 0, error_sum = 0, diffImg = NewRGBA (Bounds image_a)\<rparr> = Inl e"
        by (simp add: compare_pixels_def and_then_def Let_def cpd_def al_def split: sum.splits)
      then obtain y s0 where y: "y \<in> set (counting 0 h)"
        and "for_each (counting 0 w)
          (fuse_pixel args la lb bufs cpd (f_freq_table cpd) al w y) s0 = Inl e"
        by (blast dest: for_each_Inl)
      then obtain x s1 where x: "x \<in> set (counting 0 w)"
        and px: "fuse_pixel args la lb bufs cpd (f_freq_table cpd) al w y x s1 = Inl e"
        by (blast dest: for_each_Inl)
      from counting_bounds [OF x] counting_bounds [OF y]
      have "0 \<le> x" "x < w" "0 \<le> y" "y < h" by auto
      from fuse_pixel_Inl [OF sa sb this al px] show ?thesis by simp
    qed
  qed
qed

text \<open>
  C9. The pyramids that \<open>YeeCompare\<close> builds have 8 levels of \<open>w * h\<close> entries
  (\<open>newPyramid_shape\<close>), and on such a pyramid \<open>get_value\<close> panics exactly when its
  level is outside \<open>0..7\<close> or its index \<open>x + y * w\<close> is outside \<open>0..w * h - 1\<close>
  (\<open>get_value_panics_iff\<close>). No call of \<open>YeeCompare\<close>, whatever the bounds of the
  images, and so in particular for bounds starting at \<open>(0, 0)\<close>, ends in a panic of
  \<open>get_value\<close>: every invocation of the accessor is in range.
\<close>

theorem get_value_never_out_of_range:
  "YeeCompare image_a image_b args \<noteq> Inl (IndexOutOfRange In_get_value)"
proof
  assume "YeeCompare image_a image_b args = Inl (IndexOutOfRange In_get_value)"
  then have "compare_pixels image_a image_b args (Bounds image_a)
      (X (Size (Bounds image_a))) (Y (Size (Bounds image_a))) = Inl (IndexOutOfRange In_get_value)"
    by (simp add: YeeCompare_def Let_def split: if_splits)
  from compare_pixels_Inl [OF this] show False by simp
qed

end
